theory Spec2Isabelle
  imports Main "HOL-Library.Multiset"
begin

section \<open>vtkThreadedCallbackQueue: the data\<close>

text \<open>
  A \<^verbatim>\<open>std::thread\<close> object of the \<^verbatim>\<open>Threads\<close> vector. It is either not joinable
  (default-constructed, or already joined) or it runs \<^verbatim>\<open>ThreadWorker(queue, ThreadId)\<close>,
  whose \<^verbatim>\<open>ThreadId\<close> is fixed when the thread is spawned. Of a thread that runs, the
  model keeps where it is in \<^verbatim>\<open>ThreadWorker::operator()\<close>:
  \<^item> \<open>ThreadWorker ThreadId\<close>: at the head of the loop, about to lock the mutex in
    \<^verbatim>\<open>Pop\<close> (a thread is spawned here);
  \<^item> \<open>InWait ThreadId\<close>: inside \<^verbatim>\<open>ConditionVariable.wait\<close>, the mutex released;
  \<^item> \<open>Invoking ThreadId invoker\<close>: after \<^verbatim>\<open>lock.unlock()\<close>, holding the invoker that
    it has popped and is about to call;
  \<^item> \<open>Finished ThreadId\<close>: \<^verbatim>\<open>operator()\<close> has returned; the thread is still joinable.
\<close>

datatype 'a thread =
    NotAThread
  | ThreadWorker int
  | InWait int
  | Invoking int 'a
  | Finished int

text \<open>
  The members of \<^verbatim>\<open>vtkThreadedCallbackQueue\<close>. \<open>'a\<close> is the type of the invokers in
  the queue, \<open>'c\<close> the type of the controller (\<^verbatim>\<open>nullptr\<close> is \<open>None\<close>). The mutex and
  the condition variable are not data of the model: a critical section is one step, and
  a worker inside \<^verbatim>\<open>wait\<close> is a thread in the state \<open>InWait\<close>.
\<close>

record ('a, 'c) vtkThreadedCallbackQueue =
  InvokerQueue :: "'a list"
  Empty :: bool
  Destroying :: bool
  Running :: bool
  NumberOfThreads :: int
  Threads :: "'a thread list"
  Controller :: "'c option"

text \<open>
  The three closures that \<^verbatim>\<open>SetNumberOfThreads\<close>, \<^verbatim>\<open>Stop\<close> and \<^verbatim>\<open>Start\<close> hand to
  \<^verbatim>\<open>Execute\<close>; they are the invokers of a controller's queue.
\<close>

datatype command = SetNumberOfThreadsLambda int | StopLambda | StartLambda

text \<open>How a call leaves the normal control flow.\<close>

datatype failure =
    LengthError    \<comment> \<open>\<^verbatim>\<open>Threads.resize\<close> with a negative count: \<^verbatim>\<open>std::length_error\<close>\<close>
  | Terminate      \<comment> \<open>a joinable \<^verbatim>\<open>std::thread\<close> is destroyed or assigned over: \<^verbatim>\<open>std::terminate\<close>\<close>
  | SystemError    \<comment> \<open>\<^verbatim>\<open>join\<close> on a thread that is not joinable: \<^verbatim>\<open>std::system_error\<close>\<close>
  | OutOfRange     \<comment> \<open>\<^verbatim>\<open>Threads.begin() + startId\<close> outside the vector: undefined behaviour\<close>
  | JoinBlocks     \<comment> \<open>\<^verbatim>\<open>join\<close> has not returned: the thread joined has not left its loop\<close>

text \<open>What \<^verbatim>\<open>Pop\<close> does: it waits on the condition variable, or it returns a bool.\<close>

datatype pop_result = Wait | Return bool

text \<open>How \<^verbatim>\<open>operator()\<close> of a worker ends: its loop is left, or the worker waits.\<close>

datatype worker_status = Exited | Waiting

section \<open>ThreadWorker\<close>

definition OnHold :: "int \<Rightarrow> ('a, 'c) vtkThreadedCallbackQueue \<Rightarrow> bool" where
  "OnHold ThreadId Queue =
     (ThreadId < NumberOfThreads Queue \<and> \<not> Destroying Queue \<and> Running Queue
       \<and> InvokerQueue Queue = [])"

definition Continue :: "int \<Rightarrow> ('a, 'c) vtkThreadedCallbackQueue \<Rightarrow> bool" where
  "Continue ThreadId Queue =
     (ThreadId < NumberOfThreads Queue \<and> Running Queue \<and> InvokerQueue Queue \<noteq> [])"

text \<open>
  \<^verbatim>\<open>ThreadWorker::Pop\<close>, read as the sequential code of one worker that no other
  thread interrupts (the workers are interleaved in the next section). The parameter
  \<open>call\<close> is \<^verbatim>\<open>(*invoker)()\<close>: what running an invoker does to the world \<open>'w\<close> outside
  this queue (it may fail). The lock is held from the last evaluation of \<^verbatim>\<open>OnHold\<close>
  to \<^verbatim>\<open>lock.unlock()\<close>, so the test of \<^verbatim>\<open>Continue\<close>, the pop and the update of
  \<^verbatim>\<open>Empty\<close> are one critical section; the call comes after it. A worker for which
  \<^verbatim>\<open>OnHold\<close> holds stays in \<^verbatim>\<open>wait\<close>: the result is \<open>Wait\<close> and nothing changes.
\<close>

definition Pop ::
  "('a \<Rightarrow> 'w \<Rightarrow> failure + 'w) \<Rightarrow> int \<Rightarrow> 'w \<times> ('a, 'c) vtkThreadedCallbackQueue
     \<Rightarrow> failure + (pop_result \<times> 'w \<times> ('a, 'c) vtkThreadedCallbackQueue)" where
  "Pop call ThreadId ws =
     (case ws of (w, Queue) \<Rightarrow>
        if OnHold ThreadId Queue then Inr (Wait, w, Queue)
        else if \<not> Continue ThreadId Queue then Inr (Return False, w, Queue)
        else
          let invoker = hd (InvokerQueue Queue);
              Queue1 = Queue\<lparr>InvokerQueue := tl (InvokerQueue Queue)\<rparr>;
              Queue2 = Queue1\<lparr>Empty := (InvokerQueue Queue1 = [])\<rparr>
          in (case call invoker w of
                Inl e \<Rightarrow> Inl e
              | Inr w' \<Rightarrow> Inr (Return True, w', Queue2)))"

text \<open>\<^verbatim>\<open>ThreadWorker::operator()\<close>: \<^verbatim>\<open>while (this->Pop());\<close>\<close>

function ThreadWorker_call ::
  "('a \<Rightarrow> 'w \<Rightarrow> failure + 'w) \<Rightarrow> int \<Rightarrow> 'w \<times> ('a, 'c) vtkThreadedCallbackQueue
     \<Rightarrow> failure + (worker_status \<times> 'w \<times> ('a, 'c) vtkThreadedCallbackQueue)" where
  "ThreadWorker_call call ThreadId (w, Queue) =
     (case Pop call ThreadId (w, Queue) of
        Inl e \<Rightarrow> Inl e
      | Inr (Wait, ws') \<Rightarrow> Inr (Waiting, ws')
      | Inr (Return b, ws') \<Rightarrow>
          if b then ThreadWorker_call call ThreadId ws' else Inr (Exited, ws'))"
  by pat_completeness auto
termination
  by (relation "measure (\<lambda>(call, ThreadId, w, Queue). length (InvokerQueue Queue))")
     (auto simp: Pop_def Continue_def Let_def split: if_splits sum.splits)

section \<open>The workers of a queue, interleaved\<close>

text \<open>
  An invoker of a user's queue is opaque; the world of such a queue is the list of the
  invokers that its workers have run, in the order of their calls.
\<close>

definition executed :: "'a \<Rightarrow> 'a list \<Rightarrow> failure + 'a list" where
  "executed invoker log = Inr (log @ [invoker])"

text \<open>
  One step of the worker whose thread is at position \<open>p\<close> of \<^verbatim>\<open>Threads\<close>. The steps are
  cut where the code of \<^verbatim>\<open>Pop\<close> holds or releases the mutex. A worker at the head of its
  loop does the critical section in one step: it finds \<^verbatim>\<open>OnHold\<close> and goes into
  \<^verbatim>\<open>wait\<close>, or it finds \<^verbatim>\<open>Continue\<close> false and \<^verbatim>\<open>operator()\<close> returns, or it pops the
  front invoker and updates \<^verbatim>\<open>Empty\<close>. The call \<^verbatim>\<open>(*invoker)()\<close>, after
  \<^verbatim>\<open>lock.unlock()\<close>, is a step of its own, so the calls of several workers can
  overlap with the pops of the others and come in any order. A worker inside \<^verbatim>\<open>wait\<close>
  does nothing until it is woken.
\<close>

definition worker_step ::
  "('a \<Rightarrow> 'w \<Rightarrow> failure + 'w) \<Rightarrow> nat \<Rightarrow> 'w \<times> ('a, 'c) vtkThreadedCallbackQueue
     \<Rightarrow> failure + ('w \<times> ('a, 'c) vtkThreadedCallbackQueue)" where
  "worker_step call p ws =
     (case ws of (w, Queue) \<Rightarrow>
        if p < length (Threads Queue) then
          (case Threads Queue ! p of
             NotAThread \<Rightarrow> Inr (w, Queue)
           | ThreadWorker ThreadId \<Rightarrow>
               if OnHold ThreadId Queue then
                 Inr (w, Queue\<lparr>Threads := (Threads Queue)[p := InWait ThreadId]\<rparr>)
               else if \<not> Continue ThreadId Queue then
                 Inr (w, Queue\<lparr>Threads := (Threads Queue)[p := Finished ThreadId]\<rparr>)
               else
                 let invoker = hd (InvokerQueue Queue);
                     Queue1 = Queue\<lparr>InvokerQueue := tl (InvokerQueue Queue)\<rparr>;
                     Queue2 = Queue1\<lparr>Empty := (InvokerQueue Queue1 = [])\<rparr>
                 in Inr (w, Queue2\<lparr>Threads := (Threads Queue2)[p := Invoking ThreadId invoker]\<rparr>)
           | InWait ThreadId \<Rightarrow> Inr (w, Queue)
           | Invoking ThreadId invoker \<Rightarrow>
               (case call invoker w of
                  Inl e \<Rightarrow> Inl e
                | Inr w' \<Rightarrow> Inr (w', Queue\<lparr>Threads := (Threads Queue)[p := ThreadWorker ThreadId]\<rparr>))
           | Finished ThreadId \<Rightarrow> Inr (w, Queue))
        else Inr (w, Queue))"

text \<open>
  A worker inside \<^verbatim>\<open>wait\<close> that is woken locks the mutex and evaluates the predicate
  \<^verbatim>\<open>!OnHold()\<close> again, which is what a worker at the head of its loop does.
\<close>

definition wake :: "'a thread \<Rightarrow> 'a thread" where
  "wake t = (case t of InWait ThreadId \<Rightarrow> ThreadWorker ThreadId | _ \<Rightarrow> t)"

text \<open>\<^verbatim>\<open>ConditionVariable.notify_all()\<close>\<close>

definition notify_all :: "('a, 'c) vtkThreadedCallbackQueue \<Rightarrow> ('a, 'c) vtkThreadedCallbackQueue" where
  "notify_all this = this\<lparr>Threads := map wake (Threads this)\<rparr>"

text \<open>
  What the scheduler lets happen next among the workers of a queue: the worker at a
  position takes its next step, or the worker at a position, if it is inside
  \<^verbatim>\<open>wait\<close>, wakes up (spuriously, or by the \<^verbatim>\<open>notify_one\<close> of a \<^verbatim>\<open>Push\<close>).
\<close>

datatype event = Runs nat | Wakes nat

definition event_step ::
  "('a \<Rightarrow> 'w \<Rightarrow> failure + 'w) \<Rightarrow> event \<Rightarrow> 'w \<times> ('a, 'c) vtkThreadedCallbackQueue
     \<Rightarrow> failure + ('w \<times> ('a, 'c) vtkThreadedCallbackQueue)" where
  "event_step call e ws =
     (case e of
        Runs p \<Rightarrow> worker_step call p ws
      | Wakes p \<Rightarrow>
          (case ws of (w, Queue) \<Rightarrow>
             if p < length (Threads Queue) then
               Inr (w, Queue\<lparr>Threads := (Threads Queue)[p := wake (Threads Queue ! p)]\<rparr>)
             else Inr (w, Queue)))"

text \<open>The workers run as a schedule, a list of events, says.\<close>

primrec run_events ::
  "('a \<Rightarrow> 'w \<Rightarrow> failure + 'w) \<Rightarrow> event list \<Rightarrow> 'w \<times> ('a, 'c) vtkThreadedCallbackQueue
     \<Rightarrow> failure + ('w \<times> ('a, 'c) vtkThreadedCallbackQueue)" where
  "run_events call [] ws = Inr ws"
| "run_events call (e # sch) ws =
     (case event_step call e ws of
        Inl err \<Rightarrow> Inl err
      | Inr ws' \<Rightarrow> run_events call sch ws')"

text \<open>The invokers that workers have popped and not yet called to the end.\<close>

definition held :: "'a thread \<Rightarrow> 'a list" where
  "held t = (case t of Invoking ThreadId invoker \<Rightarrow> [invoker] | _ \<Rightarrow> [])"

definition in_flight :: "('a, 'c) vtkThreadedCallbackQueue \<Rightarrow> 'a list" where
  "in_flight this = concat (map held (Threads this))"

section \<open>Joining, resizing and spawning threads\<close>

text \<open>
  A caller that is blocked is a caller that lets the workers run. The state of an
  operation that can block is the schedule that is still to come, the world, and the
  queue.

  \<^verbatim>\<open>thread.join()\<close> on the thread at position \<open>p\<close> returns when the thread's
  \<^verbatim>\<open>operator()\<close> has returned; until then the workers (all of them) run as the schedule
  says. When the schedule ends and the thread has not left its loop, the join has not
  returned: \<open>JoinBlocks\<close>. So a join that never returns is one that gives \<open>JoinBlocks\<close> for
  every schedule.
\<close>

primrec join ::
  "('a \<Rightarrow> 'w \<Rightarrow> failure + 'w) \<Rightarrow> nat \<Rightarrow> event list \<Rightarrow> 'w \<times> ('a, 'c) vtkThreadedCallbackQueue
     \<Rightarrow> failure + (event list \<times> 'w \<times> ('a, 'c) vtkThreadedCallbackQueue)" where
  "join call p [] ws =
     (case Threads (snd ws) ! p of
        NotAThread \<Rightarrow> Inl SystemError
      | Finished ThreadId \<Rightarrow> Inr ([], ws)
      | _ \<Rightarrow> Inl JoinBlocks)"
| "join call p (e # sch) ws =
     (case Threads (snd ws) ! p of
        NotAThread \<Rightarrow> Inl SystemError
      | Finished ThreadId \<Rightarrow> Inr (e # sch, ws)
      | _ \<Rightarrow>
          (case event_step call e ws of
             Inl err \<Rightarrow> Inl err
           | Inr ws' \<Rightarrow> join call p sch ws'))"

text \<open>
  \<^verbatim>\<open>std::for_each(first, last, [](std::thread& thread) { thread.join(); })\<close>, over the
  positions of the threads.
\<close>

primrec for_each_join ::
  "('a \<Rightarrow> 'w \<Rightarrow> failure + 'w) \<Rightarrow> nat list
     \<Rightarrow> event list \<times> 'w \<times> ('a, 'c) vtkThreadedCallbackQueue
     \<Rightarrow> failure + (event list \<times> 'w \<times> ('a, 'c) vtkThreadedCallbackQueue)" where
  "for_each_join call [] s = Inr s"
| "for_each_join call (p # ps) s =
     (case join call p (fst s) (snd s) of
        Inl e \<Rightarrow> Inl e
      | Inr s' \<Rightarrow> for_each_join call ps s')"

text \<open>
  \<^verbatim>\<open>vtkThreadedCallbackQueue::Sync(int startId)\<close>: joins the threads at the positions
  from \<^verbatim>\<open>startId\<close> on, one after the other. A joined \<^verbatim>\<open>std::thread\<close> is not joinable
  any more (a thread that has returned takes no step, so it makes no difference that
  the handles are reset together at the end).
\<close>

definition Sync ::
  "('a \<Rightarrow> 'w \<Rightarrow> failure + 'w) \<Rightarrow> int
     \<Rightarrow> event list \<times> 'w \<times> ('a, 'c) vtkThreadedCallbackQueue
     \<Rightarrow> failure + (event list \<times> 'w \<times> ('a, 'c) vtkThreadedCallbackQueue)" where
  "Sync call startId s =
     (case s of (sch, w, this) \<Rightarrow>
        if startId < 0 \<or> int (length (Threads this)) < startId then Inl OutOfRange
        else
          (case for_each_join call [nat startId ..< length (Threads this)] (sch, w, this) of
             Inl e \<Rightarrow> Inl e
           | Inr (sch', w', this') \<Rightarrow>
               Inr (sch', w', this'\<lparr>Threads := take (nat startId) (Threads this')
                                  @ map (\<lambda>t. NotAThread) (drop (nat startId) (Threads this'))\<rparr>)))"

text \<open>
  Modelled from the spec: the declaration \<^verbatim>\<open>void Sync(int startId = ...)\<close> is in the
  header, which is not among the sources. \<^verbatim>\<open>Stop\<close> and the destructor call
  \<^verbatim>\<open>Sync()\<close> and, by the spec, join every worker thread: the default is 0.
\<close>

definition Sync_default_startId :: int where
  "Sync_default_startId = 0"

definition joinable :: "'a thread \<Rightarrow> bool" where
  "joinable t = (t \<noteq> NotAThread)"

text \<open>
  \<^verbatim>\<open>Threads.resize(new_size)\<close> with an \<^verbatim>\<open>int\<close> size: a negative size becomes a huge
  \<^verbatim>\<open>size_t\<close>; the threads cut off are destroyed; the new ones are default-constructed.
\<close>

definition resize :: "int \<Rightarrow> 'a thread list \<Rightarrow> failure + 'a thread list" where
  "resize new_size ts =
     (if new_size < 0 then Inl LengthError
      else if list_ex joinable (drop (nat new_size) ts) then Inl Terminate
      else Inr (take (nat new_size) ts @ replicate (nat new_size - length ts) NotAThread))"

text \<open>
  \<^verbatim>\<open>std::generate_n(std::back_inserter(Threads), k, gen)\<close> with the generator of
  \<^verbatim>\<open>SetNumberOfThreads\<close>: each round calls the generator, which reads
  \<^verbatim>\<open>Threads.size() - 1\<close>, and then appends the thread it returns. (For an empty vector
  \<^verbatim>\<open>static_cast<int>(size_t(0) - 1)\<close> is -1.)
\<close>

primrec generate_n :: "nat \<Rightarrow> 'a thread list \<Rightarrow> 'a thread list" where
  "generate_n 0 ts = ts"
| "generate_n (Suc k) ts = generate_n k (ts @ [ThreadWorker (int (length ts) - 1)])"

text \<open>
  \<^verbatim>\<open>std::generate(Threads.begin(), Threads.end(), gen)\<close> with the generator of
  \<^verbatim>\<open>Start\<close>, which returns a thread for \<^verbatim>\<open>++threadId\<close>; the thread is move-assigned
  to its slot of the vector.
\<close>

primrec generate :: "int \<Rightarrow> 'a thread list \<Rightarrow> failure + 'a thread list" where
  "generate threadId [] = Inr []"
| "generate threadId (t # ts) =
     (if joinable t then Inl Terminate
      else (case generate (threadId + 1) ts of
              Inl e \<Rightarrow> Inl e
            | Inr ts' \<Rightarrow> Inr (ThreadWorker (threadId + 1) # ts')))"

section \<open>The administrative operations\<close>

text \<open>The body of the closure of \<^verbatim>\<open>SetNumberOfThreads(numberOfThreads)\<close>.\<close>

definition SetNumberOfThreads_body ::
  "('a \<Rightarrow> 'w \<Rightarrow> failure + 'w) \<Rightarrow> int
     \<Rightarrow> event list \<times> 'w \<times> ('a, 'c) vtkThreadedCallbackQueue
     \<Rightarrow> failure + (event list \<times> 'w \<times> ('a, 'c) vtkThreadedCallbackQueue)" where
  "SetNumberOfThreads_body call numberOfThreads s =
     (case s of (sch, w, this) \<Rightarrow>
        let size = int (length (Threads this)) in
        if size = numberOfThreads then Inr (sch, w, this)
        else
          let this1 =
                (if size < numberOfThreads \<or> \<not> Running this
                 then this\<lparr>NumberOfThreads := numberOfThreads\<rparr>
                 else \<comment> \<open>under the lock\<close> this\<lparr>NumberOfThreads := numberOfThreads\<rparr>)
          in
          if \<not> Running this1 then
            (case resize numberOfThreads (Threads this1) of
               Inl e \<Rightarrow> Inl e
             | Inr ts \<Rightarrow> Inr (sch, w, this1\<lparr>Threads := ts\<rparr>))
          else if size < numberOfThreads then
            Inr (sch, w,
                 this1\<lparr>Threads := generate_n (nat (numberOfThreads - size)) (Threads this1)\<rparr>)
          else
            (case Sync call (NumberOfThreads this1) (sch, w, notify_all this1) of
               Inl e \<Rightarrow> Inl e
             | Inr (sch', w', this2) \<Rightarrow>
                 (case resize numberOfThreads (Threads this2) of
                    Inl e \<Rightarrow> Inl e
                  | Inr ts \<Rightarrow> Inr (sch', w', this2\<lparr>Threads := ts\<rparr>))))"

text \<open>The body of the closure of \<^verbatim>\<open>Stop()\<close>.\<close>

definition Stop_body ::
  "('a \<Rightarrow> 'w \<Rightarrow> failure + 'w)
     \<Rightarrow> event list \<times> 'w \<times> ('a, 'c) vtkThreadedCallbackQueue
     \<Rightarrow> failure + (event list \<times> 'w \<times> ('a, 'c) vtkThreadedCallbackQueue)" where
  "Stop_body call s =
     (case s of (sch, w, this) \<Rightarrow>
        if \<not> Running this then Inr (sch, w, this)
        else Sync call Sync_default_startId (sch, w, notify_all (this\<lparr>Running := False\<rparr>)))"

text \<open>The body of the closure of \<^verbatim>\<open>Start()\<close>.\<close>

definition Start_body ::
  "event list \<times> 'w \<times> ('a, 'c) vtkThreadedCallbackQueue
     \<Rightarrow> failure + (event list \<times> 'w \<times> ('a, 'c) vtkThreadedCallbackQueue)" where
  "Start_body s =
     (case s of (sch, w, this) \<Rightarrow>
        if Running this then Inr (sch, w, this)
        else
          let this1 = this\<lparr>Running := True\<rparr> in
          (case generate (- 1) (Threads this1) of
             Inl e \<Rightarrow> Inl e
           | Inr ts \<Rightarrow> Inr (sch, w, this1\<lparr>Threads := ts\<rparr>)))"

text \<open>Calling one of the three closures on the queue it has captured.\<close>

fun invoke ::
  "('a \<Rightarrow> 'w \<Rightarrow> failure + 'w) \<Rightarrow> command
     \<Rightarrow> event list \<times> 'w \<times> ('a, 'c) vtkThreadedCallbackQueue
     \<Rightarrow> failure + (event list \<times> 'w \<times> ('a, 'c) vtkThreadedCallbackQueue)" where
  "invoke call (SetNumberOfThreadsLambda numberOfThreads) s =
     SetNumberOfThreads_body call numberOfThreads s"
| "invoke call StopLambda s = Stop_body call s"
| "invoke call StartLambda s = Start_body s"

text \<open>
  Modelled from the spec: \<^verbatim>\<open>Push\<close> is a template of the header, which is not among
  the sources. By the spec it appends the invoker to the tail of the queue under the
  mutex and updates the empty flag (and signals a waiting worker: an event \<open>Wakes\<close>).
\<close>

definition Push :: "'a \<Rightarrow> ('a, 'c) vtkThreadedCallbackQueue \<Rightarrow> ('a, 'c) vtkThreadedCallbackQueue" where
  "Push invoker this = this\<lparr>InvokerQueue := InvokerQueue this @ [invoker], Empty := False\<rparr>"

text \<open>
  \<^verbatim>\<open>Execute(controller, f)\<close>: with a controller the closure is pushed on the
  controller's queue, without one it is called at once.
\<close>

definition Execute ::
  "('a \<Rightarrow> 'w \<Rightarrow> failure + 'w) \<Rightarrow> (command, 'd) vtkThreadedCallbackQueue option \<Rightarrow> command
     \<Rightarrow> event list \<times> 'w \<times> ('a, (command, 'd) vtkThreadedCallbackQueue) vtkThreadedCallbackQueue
     \<Rightarrow> failure + (event list \<times> 'w
           \<times> ('a, (command, 'd) vtkThreadedCallbackQueue) vtkThreadedCallbackQueue)" where
  "Execute call controller f s =
     (case controller of
        Some c \<Rightarrow> (case s of (sch, w, this) \<Rightarrow> Inr (sch, w, this\<lparr>Controller := Some (Push f c)\<rparr>))
      | None \<Rightarrow> invoke call f s)"

definition SetNumberOfThreads ::
  "('a \<Rightarrow> 'w \<Rightarrow> failure + 'w) \<Rightarrow> int
     \<Rightarrow> event list \<times> 'w \<times> ('a, (command, 'd) vtkThreadedCallbackQueue) vtkThreadedCallbackQueue
     \<Rightarrow> failure + (event list \<times> 'w
           \<times> ('a, (command, 'd) vtkThreadedCallbackQueue) vtkThreadedCallbackQueue)" where
  "SetNumberOfThreads call numberOfThreads s =
     Execute call (Controller (snd (snd s))) (SetNumberOfThreadsLambda numberOfThreads) s"

definition Stop ::
  "('a \<Rightarrow> 'w \<Rightarrow> failure + 'w)
     \<Rightarrow> event list \<times> 'w \<times> ('a, (command, 'd) vtkThreadedCallbackQueue) vtkThreadedCallbackQueue
     \<Rightarrow> failure + (event list \<times> 'w
           \<times> ('a, (command, 'd) vtkThreadedCallbackQueue) vtkThreadedCallbackQueue)" where
  "Stop call s = Execute call (Controller (snd (snd s))) StopLambda s"

definition Start ::
  "('a \<Rightarrow> 'w \<Rightarrow> failure + 'w)
     \<Rightarrow> event list \<times> 'w \<times> ('a, (command, 'd) vtkThreadedCallbackQueue) vtkThreadedCallbackQueue
     \<Rightarrow> failure + (event list \<times> 'w
           \<times> ('a, (command, 'd) vtkThreadedCallbackQueue) vtkThreadedCallbackQueue)" where
  "Start call s = Execute call (Controller (snd (snd s))) StartLambda s"

text \<open>
  The controller's workers at work, seen from the queue that owns the controller: they
  run as a schedule says, and the closures they call are called on this queue (for the
  controller's workers the world is this queue with its schedule and its world).
\<close>

definition Controller_events ::
  "('a \<Rightarrow> 'w \<Rightarrow> failure + 'w) \<Rightarrow> event list
     \<Rightarrow> event list \<times> 'w \<times> ('a, (command, 'd) vtkThreadedCallbackQueue) vtkThreadedCallbackQueue
     \<Rightarrow> failure + (event list \<times> 'w
           \<times> ('a, (command, 'd) vtkThreadedCallbackQueue) vtkThreadedCallbackQueue)" where
  "Controller_events call sch_c s =
     (case Controller (snd (snd s)) of
        None \<Rightarrow> Inr s
      | Some c \<Rightarrow>
          (case run_events (invoke call) sch_c (s, c) of
             Inl e \<Rightarrow> Inl e
           | Inr ((sch', w', this'), c') \<Rightarrow> Inr (sch', w', this'\<lparr>Controller := Some c'\<rparr>)))"

section \<open>Construction and destruction\<close>

text \<open>The member initialisers of the constructor that takes the controller.\<close>

definition vtkThreadedCallbackQueue_init ::
  "'c option \<Rightarrow> ('a, 'c) vtkThreadedCallbackQueue" where
  "vtkThreadedCallbackQueue_init controller =
     \<lparr>InvokerQueue = [], Empty = True, Destroying = False, Running = False,
      NumberOfThreads = 1, Threads = replicate (nat 1) NotAThread, Controller = controller\<rparr>"

text \<open>
  \<^verbatim>\<open>vtkInternalController::New()\<close>: the constructor is called with \<^verbatim>\<open>nullptr\<close>, so
  the \<^verbatim>\<open>if (this->Controller)\<close> of its body is not taken.
\<close>

definition vtkInternalController_New :: "(command, 'd) vtkThreadedCallbackQueue" where
  "vtkInternalController_New = vtkThreadedCallbackQueue_init None"

text \<open>
  The constructor that takes the controller. The controller's invokers are closures over
  the queue under construction: for the controller's workers the world is that queue
  (with its schedule and its own world), and calling an invoker is \<open>invoke\<close>. \<open>sch_c\<close> is
  the schedule of the controller's workers.
\<close>

definition vtkThreadedCallbackQueue_ctor ::
  "('a \<Rightarrow> 'w \<Rightarrow> failure + 'w)
     \<Rightarrow> (command, (command, 'd) vtkThreadedCallbackQueue) vtkThreadedCallbackQueue option
     \<Rightarrow> event list \<Rightarrow> event list \<times> 'w
     \<Rightarrow> failure + (event list \<times> 'w \<times> ('a, (command, (command, 'd) vtkThreadedCallbackQueue)
                               vtkThreadedCallbackQueue) vtkThreadedCallbackQueue)" where
  "vtkThreadedCallbackQueue_ctor call controller sch_c sw =
     (case sw of (sch, w) \<Rightarrow>
      let this = vtkThreadedCallbackQueue_init controller in
      case Controller this of
        None \<Rightarrow> Inr (sch, w, this)
      | Some c \<Rightarrow>
          (case SetNumberOfThreads (invoke call) 1 (sch_c, (sch, w, this), c) of
             Inl e \<Rightarrow> Inl e
           | Inr s1 \<Rightarrow>
               (case Start (invoke call) s1 of
                  Inl e \<Rightarrow> Inl e
                | Inr (sch_c2, (sch2, w2, this2), c2) \<Rightarrow>
                    Inr (sch2, w2, this2\<lparr>Controller := Some c2\<rparr>))))"

text \<open>The default constructor: \<^verbatim>\<open>vtkThreadedCallbackQueue(vtkSmartPointer<vtkInternalController>::New())\<close>\<close>

definition vtkThreadedCallbackQueue_New ::
  "('a \<Rightarrow> 'w \<Rightarrow> failure + 'w) \<Rightarrow> event list \<Rightarrow> event list \<times> 'w
     \<Rightarrow> failure + (event list \<times> 'w \<times> ('a, (command, (command, 'd) vtkThreadedCallbackQueue)
                               vtkThreadedCallbackQueue) vtkThreadedCallbackQueue)" where
  "vtkThreadedCallbackQueue_New call sch_c sw =
     vtkThreadedCallbackQueue_ctor call (Some vtkInternalController_New) sch_c sw"

text \<open>
  The destructor of a queue whose controller is \<^verbatim>\<open>nullptr\<close> already (a
  \<^verbatim>\<open>vtkInternalController\<close>, or the rest of the destructor once the controller is gone).
\<close>

definition destructor_body ::
  "('a \<Rightarrow> 'w \<Rightarrow> failure + 'w)
     \<Rightarrow> event list \<times> 'w \<times> ('a, 'c) vtkThreadedCallbackQueue
     \<Rightarrow> failure + (event list \<times> 'w \<times> ('a, 'c) vtkThreadedCallbackQueue)" where
  "destructor_body call s =
     (case s of (sch, w, this) \<Rightarrow>
        if Running this then
          Sync call Sync_default_startId (sch, w, notify_all (this\<lparr>Destroying := True\<rparr>))
        else Inr (sch, w, this))"

text \<open>
  \<^verbatim>\<open>~vtkThreadedCallbackQueue\<close>. \<^verbatim>\<open>this->Controller = nullptr\<close> releases the only
  reference to the controller, whose destructor runs first; its workers (with the
  schedule \<open>sch_c\<close>) call the closures that are still in its queue on this queue.
\<close>

definition destructor ::
  "('a \<Rightarrow> 'w \<Rightarrow> failure + 'w) \<Rightarrow> event list
     \<Rightarrow> event list \<times> 'w \<times> ('a, (command, 'd) vtkThreadedCallbackQueue) vtkThreadedCallbackQueue
     \<Rightarrow> failure + (event list \<times> 'w
           \<times> ('a, (command, 'd) vtkThreadedCallbackQueue) vtkThreadedCallbackQueue)" where
  "destructor call sch_c s =
     (case Controller (snd (snd s)) of
        None \<Rightarrow> destructor_body call s
      | Some c \<Rightarrow>
          (case destructor_body (invoke call) (sch_c, s, c) of
             Inl e \<Rightarrow> Inl e
           | Inr (sch_c', (sch', w', this'), c') \<Rightarrow>
               destructor_body call (sch', w', this'\<lparr>Controller := None\<rparr>)))"

section \<open>Diagnostics\<close>

text \<open>What is written to an \<^verbatim>\<open>ostream\<close>: text, a number, \<^verbatim>\<open>std::endl\<close>.\<close>

datatype piece = Str string | Num int | Endl

text \<open>
  \<^verbatim>\<open>PrintSelf(os, indent)\<close>, as what is appended to the stream. \<open>super\<close> is what
  \<^verbatim>\<open>Superclass::PrintSelf\<close> writes (the superclass is not among the sources).
\<close>

definition PrintSelf ::
  "piece list \<Rightarrow> string \<Rightarrow> ('a, 'c) vtkThreadedCallbackQueue \<Rightarrow> piece list" where
  "PrintSelf super indent this =
     super @
     [Str indent, Str ''Threads: '', Num (NumberOfThreads this), Endl,
      Str indent, Str ''Callback queue size: '', Num (int (length (InvokerQueue this))), Endl,
      Str indent, Str ''Queue is'', Str (if Running this then '' not'' else []),
      Str '' running'', Endl]"

section \<open>The reachable states\<close>

text \<open>
  The states of a queue between its construction and its destruction: the queue is
  constructed, invokers are pushed, its workers take steps and wake up, the closures of
  the administrative operations are called on it (by the caller or by the controller's
  worker) with whatever schedule; its controller and the world outside change by
  themselves.
\<close>

inductive reachable ::
  "('a \<Rightarrow> 'w \<Rightarrow> failure + 'w) \<Rightarrow> 'w \<times> ('a, 'c) vtkThreadedCallbackQueue \<Rightarrow> bool"
  for call :: "'a \<Rightarrow> 'w \<Rightarrow> failure + 'w" where
  constructed: "reachable call (w, vtkThreadedCallbackQueue_init controller)"
| outside: "reachable call (w, this) \<Longrightarrow> reachable call (w', this\<lparr>Controller := controller\<rparr>)"
| pushed: "reachable call (w, this) \<Longrightarrow> reachable call (w, Push invoker this)"
| stepped: "reachable call ws \<Longrightarrow> event_step call e ws = Inr ws' \<Longrightarrow> reachable call ws'"
| invoked: "reachable call (w, this) \<Longrightarrow> invoke call f (sch, w, this) = Inr (sch', ws')
     \<Longrightarrow> reachable call ws'"

text \<open>
  What holds of every reachable state (see \<open>reachable_consistent\<close> below): the
  \<^verbatim>\<open>Empty\<close> flag tells whether the queue of invokers is empty; there are as many thread
  handles as the desired thread count says; the queue is not being destroyed; the threads
  of a running queue are all workers that have not left their loops, the one at position
  \<open>p\<close> with an id of at most \<open>p\<close>; a queue that is not running has no joinable thread.
\<close>

definition at_work :: "nat \<Rightarrow> 'a thread \<Rightarrow> bool" where
  "at_work p t =
     (case t of
        ThreadWorker ThreadId \<Rightarrow> ThreadId \<le> int p
      | InWait ThreadId \<Rightarrow> ThreadId \<le> int p
      | Invoking ThreadId invoker \<Rightarrow> ThreadId \<le> int p
      | _ \<Rightarrow> False)"

definition consistent :: "('a, 'c) vtkThreadedCallbackQueue \<Rightarrow> bool" where
  "consistent this =
     (Empty this = (InvokerQueue this = [])
      \<and> int (length (Threads this)) = NumberOfThreads this
      \<and> \<not> Destroying this
      \<and> (if Running this
         then list_all (\<lambda>(p, t). at_work p t) (zip [0 ..< length (Threads this)] (Threads this))
         else list_all (\<lambda>t. \<not> joinable t) (Threads this)))"

text \<open>
  A worker that has not left its loop and is in service for the desired thread count \<open>n\<close>:
  its id is below \<open>n\<close>.
\<close>

definition in_service :: "int \<Rightarrow> 'a thread \<Rightarrow> bool" where
  "in_service n t =
     (case t of
        ThreadWorker ThreadId \<Rightarrow> ThreadId < n
      | InWait ThreadId \<Rightarrow> ThreadId < n
      | Invoking ThreadId invoker \<Rightarrow> ThreadId < n
      | _ \<Rightarrow> False)"

text \<open>
  A worker that has not left its loop and whose id is its position in \<^verbatim>\<open>Threads\<close>, as
  \<^verbatim>\<open>Start\<close> leaves the workers.
\<close>

definition at_post :: "nat \<Rightarrow> 'a thread \<Rightarrow> bool" where
  "at_post p t =
     (case t of
        ThreadWorker ThreadId \<Rightarrow> ThreadId = int p
      | InWait ThreadId \<Rightarrow> ThreadId = int p
      | Invoking ThreadId invoker \<Rightarrow> ThreadId = int p
      | _ \<Rightarrow> False)"

text \<open>
  A controller with nothing to do, as the constructor leaves it: it runs, it has one
  worker, with the id 0, which is at the head of its loop or waits, and its queue is
  empty.
\<close>

definition serving :: "('a, 'c) vtkThreadedCallbackQueue \<Rightarrow> bool" where
  "serving c =
     (Running c \<and> \<not> Destroying c \<and> NumberOfThreads c = 1 \<and> InvokerQueue c = [] \<and> Empty c
      \<and> (Threads c = [ThreadWorker 0] \<or> Threads c = [InWait 0]))"

text \<open>
  A controller that has been given one closure: the closure is in its queue, and then in
  the hands of its worker.
\<close>

definition pending :: "'a \<Rightarrow> ('a, 'c) vtkThreadedCallbackQueue \<Rightarrow> bool" where
  "pending f c =
     (Running c \<and> \<not> Destroying c \<and> NumberOfThreads c = 1 \<and> InvokerQueue c = [f] \<and> \<not> Empty c
      \<and> (Threads c = [ThreadWorker 0] \<or> Threads c = [InWait 0]))"

definition calling :: "'a \<Rightarrow> ('a, 'c) vtkThreadedCallbackQueue \<Rightarrow> bool" where
  "calling f c =
     (Running c \<and> \<not> Destroying c \<and> NumberOfThreads c = 1 \<and> InvokerQueue c = [] \<and> Empty c
      \<and> Threads c = [Invoking 0 f])"

text \<open>
  The public methods return when the closure is pushed on the controller's queue; the
  controller has called every closure it was given when its queue is empty and its
  worker holds no closure.
\<close>

definition idle ::
  "('a, (command, 'd) vtkThreadedCallbackQueue) vtkThreadedCallbackQueue \<Rightarrow> bool" where
  "idle this =
     (case Controller this of
        None \<Rightarrow> True
      | Some c \<Rightarrow> InvokerQueue c = [] \<and> in_flight c = [])"

text \<open>One operation after the other, unless the first fails.\<close>

definition and_then :: "failure + 'x \<Rightarrow> ('x \<Rightarrow> failure + 'y) \<Rightarrow> failure + 'y" where
  "and_then r f = (case r of Inl e \<Rightarrow> Inl e | Inr x \<Rightarrow> f x)"

section \<open>How long a worker can go on\<close>

text \<open>
  A worker for which the flags of \<^verbatim>\<open>OnHold\<close> hold goes into \<^verbatim>\<open>wait\<close> when it finds
  the queue of invokers empty.
\<close>

definition on_duty :: "int \<Rightarrow> ('a, 'c) vtkThreadedCallbackQueue \<Rightarrow> bool" where
  "on_duty ThreadId Queue =
     (ThreadId < NumberOfThreads Queue \<and> \<not> Destroying Queue \<and> Running Queue)"

text \<open>
  A worker that is on its way out: it is not inside \<^verbatim>\<open>wait\<close> and it will not go
  there, because it is not on duty.
\<close>

definition leaving :: "('a, 'c) vtkThreadedCallbackQueue \<Rightarrow> 'a thread \<Rightarrow> bool" where
  "leaving Queue t =
     (case t of
        ThreadWorker ThreadId \<Rightarrow> \<not> on_duty ThreadId Queue
      | Invoking ThreadId invoker \<Rightarrow> \<not> on_duty ThreadId Queue
      | Finished ThreadId \<Rightarrow> True
      | _ \<Rightarrow> False)"

text \<open>
  A bound on the steps that a worker on its way out takes before it has left its loop:
  two for each invoker it may still pop (the pop, the call), one for the call it is in,
  one to find \<^verbatim>\<open>Continue\<close> false.
\<close>

definition load :: "int \<Rightarrow> ('a, 'c) vtkThreadedCallbackQueue \<Rightarrow> nat" where
  "load ThreadId Queue =
     (if ThreadId < NumberOfThreads Queue \<and> Running Queue
      then 2 * length (InvokerQueue Queue) else 0)"

definition steps_left :: "('a, 'c) vtkThreadedCallbackQueue \<Rightarrow> 'a thread \<Rightarrow> nat" where
  "steps_left Queue t =
     (case t of
        NotAThread \<Rightarrow> 0
      | ThreadWorker ThreadId \<Rightarrow> 1 + load ThreadId Queue
      | InWait ThreadId \<Rightarrow> 1 + load ThreadId Queue
      | Invoking ThreadId invoker \<Rightarrow> 2 + load ThreadId Queue
      | Finished ThreadId \<Rightarrow> 0)"

text \<open>
  A bound on the steps that a worker in service takes before the queue of invokers is
  empty and its last call is over.
\<close>

definition work_left :: "('a, 'c) vtkThreadedCallbackQueue \<Rightarrow> 'a thread \<Rightarrow> nat" where
  "work_left Queue t =
     2 * length (InvokerQueue Queue)
       + (case t of Invoking ThreadId invoker \<Rightarrow> 1 | _ \<Rightarrow> 0)"

section \<open>The worker's predicates and loop\<close>

declare ThreadWorker_call.simps [simp del]

lemma Pop_Wait: "OnHold i s \<Longrightarrow> Pop call i (w, s) = Inr (Wait, w, s)"
  by (simp add: Pop_def)

lemma Pop_False:
  "\<not> OnHold i s \<Longrightarrow> \<not> Continue i s \<Longrightarrow> Pop call i (w, s) = Inr (Return False, w, s)"
  by (simp add: Pop_def)

lemma Pop_True:
  "Continue i s \<Longrightarrow> call (hd (InvokerQueue s)) w = Inr w' \<Longrightarrow>
   Pop call i (w, s) =
     Inr (Return True, w', s\<lparr>InvokerQueue := tl (InvokerQueue s), Empty := (tl (InvokerQueue s) = [])\<rparr>)"
  by (auto simp: Pop_def OnHold_def Continue_def Let_def)

lemma Pop_fails:
  "Continue i s \<Longrightarrow> call (hd (InvokerQueue s)) w = Inl e \<Longrightarrow> Pop call i (w, s) = Inl e"
  by (auto simp: Pop_def OnHold_def Continue_def Let_def)

lemma ThreadWorker_call_Exited:
  "\<not> OnHold i s \<Longrightarrow> \<not> Continue i s \<Longrightarrow> ThreadWorker_call call i (w, s) = Inr (Exited, w, s)"
  by (simp add: ThreadWorker_call.simps Pop_False)

lemma ThreadWorker_call_Waiting:
  "OnHold i s \<Longrightarrow> ThreadWorker_call call i (w, s) = Inr (Waiting, w, s)"
  by (simp add: ThreadWorker_call.simps Pop_Wait)

lemma Continue_not_OnHold: "Continue i s \<Longrightarrow> \<not> OnHold i s"
  by (simp add: Continue_def OnHold_def)

text \<open>
  C6: \<^verbatim>\<open>Continue\<close> is true exactly when the worker's id is below the desired thread
  count, the queue is running and the queue of invokers is not empty. When a worker that
  is not (or no longer) on hold finds \<^verbatim>\<open>Continue\<close> false, \<^verbatim>\<open>Pop\<close> returns false
  without touching anything and the worker's loop is left for good. This happens exactly
  when the queue is stopped, or the id is out of range, or the queue is being destroyed
  with nothing left in it.
\<close>

theorem Continue_decides_the_loop:
  "(Continue i s \<longleftrightarrow> i < NumberOfThreads s \<and> Running s \<and> InvokerQueue s \<noteq> [])
   \<and> (\<not> OnHold i s \<and> \<not> Continue i s \<longrightarrow>
        Pop call i (w, s) = Inr (Return False, w, s)
        \<and> ThreadWorker_call call i (w, s) = Inr (Exited, w, s))
   \<and> (\<not> OnHold i s \<and> \<not> Continue i s \<longleftrightarrow>
        \<not> Running s \<or> \<not> i < NumberOfThreads s \<or> (Destroying s \<and> InvokerQueue s = []))"
proof (intro conjI)
  show "Continue i s \<longleftrightarrow> i < NumberOfThreads s \<and> Running s \<and> InvokerQueue s \<noteq> []"
    by (simp add: Continue_def)
  show "\<not> OnHold i s \<and> \<not> Continue i s \<longrightarrow>
        Pop call i (w, s) = Inr (Return False, w, s)
        \<and> ThreadWorker_call call i (w, s) = Inr (Exited, w, s)"
    by (simp add: Pop_False ThreadWorker_call_Exited del: ThreadWorker_call.simps)
  show "\<not> OnHold i s \<and> \<not> Continue i s \<longleftrightarrow>
        \<not> Running s \<or> \<not> i < NumberOfThreads s \<or> (Destroying s \<and> InvokerQueue s = [])"
    by (auto simp: OnHold_def Continue_def)
qed

theorem Continue_decides_the_loop_witness:
  "Pop executed 0 ([] :: nat list,
     \<lparr>InvokerQueue = [7], Empty = False, Destroying = False, Running = False,
      NumberOfThreads = 1, Threads = [NotAThread], Controller = None :: unit option\<rparr>)
   = Inr (Return False, [],
     \<lparr>InvokerQueue = [7], Empty = False, Destroying = False, Running = False,
      NumberOfThreads = 1, Threads = [NotAThread], Controller = None\<rparr>)
   \<and> ThreadWorker_call executed 0 ([] :: nat list,
     \<lparr>InvokerQueue = [7], Empty = False, Destroying = False, Running = False,
      NumberOfThreads = 1, Threads = [NotAThread], Controller = None :: unit option\<rparr>)
   = Inr (Exited, [],
     \<lparr>InvokerQueue = [7], Empty = False, Destroying = False, Running = False,
      NumberOfThreads = 1, Threads = [NotAThread], Controller = None\<rparr>)"
  using Continue_decides_the_loop [of 0
     "\<lparr>InvokerQueue = [7], Empty = False, Destroying = False, Running = False,
      NumberOfThreads = 1, Threads = [NotAThread], Controller = None :: unit option\<rparr>"
     executed "[] :: nat list"]
  by (simp add: OnHold_def Continue_def)

section \<open>Administrative operations that find nothing to do\<close>

lemma Start_body_running: "Running this \<Longrightarrow> Start_body (sch, w, this) = Inr (sch, w, this)"
  by (simp add: Start_body_def)

lemma Stop_body_stopped:
  "\<not> Running this \<Longrightarrow> Stop_body call (sch, w, this) = Inr (sch, w, this)"
  by (simp add: Stop_body_def)

lemma SetNumberOfThreads_body_same:
  "int (length (Threads this)) = n \<Longrightarrow>
   SetNumberOfThreads_body call n (sch, w, this) = Inr (sch, w, this)"
  by (simp add: SetNumberOfThreads_body_def)

lemma Execute_None: "Execute call None f s = invoke call f s"
  by (simp add: Execute_def)

text \<open>
  C7: an administrative operation that finds the queue in the state it asks for changes
  nothing: the closure of \<^verbatim>\<open>Start\<close> on a running queue, the closure of \<^verbatim>\<open>Stop\<close> on a
  queue that is not running and the closure of \<^verbatim>\<open>SetNumberOfThreads(n)\<close> on a queue with
  \<open>n\<close> thread handles return the queue (and the world, and the schedule of the workers:
  no worker is waited for) as they found them; and on a queue without controller the
  three methods are calls of their closures.
\<close>

theorem administrative_no_ops:
  "(Running this \<longrightarrow> invoke call StartLambda (sch, w, this) = Inr (sch, w, this))
   \<and> (\<not> Running this \<longrightarrow> invoke call StopLambda (sch, w, this) = Inr (sch, w, this))
   \<and> (int (length (Threads this)) = n \<longrightarrow>
        invoke call (SetNumberOfThreadsLambda n) (sch, w, this) = Inr (sch, w, this))
   \<and> (Controller q = None \<longrightarrow>
        Start call' (sch', w', q) = invoke call' StartLambda (sch', w', q)
        \<and> Stop call' (sch', w', q) = invoke call' StopLambda (sch', w', q)
        \<and> SetNumberOfThreads call' n (sch', w', q)
            = invoke call' (SetNumberOfThreadsLambda n) (sch', w', q))"
  by (simp add: Start_body_running Stop_body_stopped SetNumberOfThreads_body_same
      Start_def Stop_def SetNumberOfThreads_def Execute_None)

theorem administrative_no_ops_witness:
  "Start executed ([Runs 0], [] :: nat list,
     \<lparr>InvokerQueue = [7], Empty = False, Destroying = False, Running = True,
      NumberOfThreads = 1, Threads = [ThreadWorker 0],
      Controller = None :: (command, unit) vtkThreadedCallbackQueue option\<rparr>)
   = Inr ([Runs 0], [],
     \<lparr>InvokerQueue = [7], Empty = False, Destroying = False, Running = True,
      NumberOfThreads = 1, Threads = [ThreadWorker 0], Controller = None\<rparr>)
   \<and> Stop executed ([Runs 0], [] :: nat list,
     \<lparr>InvokerQueue = [7], Empty = False, Destroying = False, Running = False,
      NumberOfThreads = 1, Threads = [NotAThread],
      Controller = None :: (command, unit) vtkThreadedCallbackQueue option\<rparr>)
   = Inr ([Runs 0], [],
     \<lparr>InvokerQueue = [7], Empty = False, Destroying = False, Running = False,
      NumberOfThreads = 1, Threads = [NotAThread], Controller = None\<rparr>)
   \<and> SetNumberOfThreads executed 1 ([Runs 0], [] :: nat list,
     \<lparr>InvokerQueue = [7], Empty = False, Destroying = False, Running = True,
      NumberOfThreads = 1, Threads = [ThreadWorker 0],
      Controller = None :: (command, unit) vtkThreadedCallbackQueue option\<rparr>)
   = Inr ([Runs 0], [],
     \<lparr>InvokerQueue = [7], Empty = False, Destroying = False, Running = True,
      NumberOfThreads = 1, Threads = [ThreadWorker 0], Controller = None\<rparr>)"
  using
    administrative_no_ops [of
     "\<lparr>InvokerQueue = [7], Empty = False, Destroying = False, Running = True,
      NumberOfThreads = 1, Threads = [ThreadWorker 0],
      Controller = None :: (command, unit) vtkThreadedCallbackQueue option\<rparr>"
     executed "[Runs 0]" "[] :: nat list" 1
     "\<lparr>InvokerQueue = [7], Empty = False, Destroying = False, Running = True,
      NumberOfThreads = 1, Threads = [ThreadWorker 0],
      Controller = None :: (command, unit) vtkThreadedCallbackQueue option\<rparr>"
     executed "[Runs 0]" "[] :: nat list"]
    administrative_no_ops [of
     "\<lparr>InvokerQueue = [7], Empty = False, Destroying = False, Running = False,
      NumberOfThreads = 1, Threads = [NotAThread],
      Controller = None :: (command, unit) vtkThreadedCallbackQueue option\<rparr>"
     executed "[Runs 0]" "[] :: nat list" 1
     "\<lparr>InvokerQueue = [7], Empty = False, Destroying = False, Running = False,
      NumberOfThreads = 1, Threads = [NotAThread],
      Controller = None :: (command, unit) vtkThreadedCallbackQueue option\<rparr>"
     executed "[Runs 0]" "[] :: nat list"]
  by simp

section \<open>Construction\<close>

text \<open>
  C9: a newly constructed queue is not running and not being destroyed, its \<^verbatim>\<open>Empty\<close>
  flag is set, its desired thread count is 1 and its one thread handle is not a thread;
  its controller has one thread handle, is running and has spawned its one worker (with
  id 0); the controller's own controller is \<^verbatim>\<open>nullptr\<close>, and a queue with a
  \<^verbatim>\<open>nullptr\<close> controller calls the closures of its administrative operations at once.
  The constructor waits for no worker: the schedules are left as they were.
\<close>

theorem construction:
  "vtkThreadedCallbackQueue_New call sch_c (sch, w) =
     Inr (sch, w,
       \<lparr>InvokerQueue = [], Empty = True, Destroying = False, Running = False,
        NumberOfThreads = 1, Threads = [NotAThread],
        Controller = Some
          \<lparr>InvokerQueue = [], Empty = True, Destroying = False, Running = True,
           NumberOfThreads = 1, Threads = [ThreadWorker 0], Controller = None\<rparr>\<rparr>)
   \<and> Controller (vtkInternalController_New :: (command, 'd) vtkThreadedCallbackQueue) = None
   \<and> Execute call' None f s = invoke call' f s"
  by (simp add: vtkThreadedCallbackQueue_New_def vtkThreadedCallbackQueue_ctor_def
      vtkInternalController_New_def vtkThreadedCallbackQueue_init_def
      SetNumberOfThreads_def Start_def Execute_def
      SetNumberOfThreads_body_def Start_body_def joinable_def)

section \<open>Diagnostics\<close>

lemma PrintSelf_status:
  "PrintSelf super indent this ! (length super + 10) = Str (if Running this then '' not'' else [])"
  by (simp add: PrintSelf_def nth_append)

text \<open>
  C3 (the code differs): for a running queue with one desired thread and an empty queue
  of invokers \<^verbatim>\<open>PrintSelf\<close> writes the thread count 1, the queue size 0 and
  \<^verbatim>\<open>Queue is not running\<close>.
\<close>

theorem PrintSelf_of_a_running_queue:
  "PrintSelf [] ''  ''
     \<lparr>InvokerQueue = [] :: nat list, Empty = True, Destroying = False, Running = True,
      NumberOfThreads = 1, Threads = [ThreadWorker 0], Controller = None :: unit option\<rparr>
   = [Str ''  '', Str ''Threads: '', Num 1, Endl,
      Str ''  '', Str ''Callback queue size: '', Num 0, Endl,
      Str ''  '', Str ''Queue is'', Str '' not'', Str '' running'', Endl]"
  by (simp add: PrintSelf_def)

section \<open>Growing a running queue\<close>

lemma generate_n_eq:
  "generate_n k ts = ts @ map (\<lambda>p. ThreadWorker (int p - 1)) [length ts ..< length ts + k]"
proof (induction k arbitrary: ts)
  case 0
  show ?case by simp
next
  case (Suc k)
  have "[length ts ..< length ts + Suc k] = length ts # [Suc (length ts) ..< Suc (length ts) + k]"
    by (simp add: upt_rec)
  then show ?case by (simp add: Suc.IH)
qed

lemma SetNumberOfThreads_body_grow:
  assumes "Running this" and "int (length (Threads this)) < n"
  shows "SetNumberOfThreads_body call n (sch, w, this) =
    Inr (sch, w, this\<lparr>NumberOfThreads := n,
                 Threads := Threads this
                   @ map (\<lambda>p. ThreadWorker (int p - 1)) [length (Threads this) ..< nat n]\<rparr>)"
proof -
  have "length (Threads this) + nat (n - int (length (Threads this))) = nat n"
    using assms(2) by simp
  then show ?thesis
    using assms by (simp add: SetNumberOfThreads_body_def generate_n_eq)
qed

text \<open>
  C1 (the code differs): a queue is started with one thread, whose worker has id 0, and
  \<^verbatim>\<open>SetNumberOfThreads(2)\<close> is called on it. One thread is spawned and the first
  worker is left alone, but the new worker has the id 0 again, not 1. (Neither call
  waits for a worker: whatever the schedule \<open>sch\<close> of the workers, it is left as it is.)
\<close>

theorem grow_from_one_to_two:
  "Start_body (sch, [] :: nat list, vtkThreadedCallbackQueue_init (None :: unit option)) =
     Inr (sch, [], \<lparr>InvokerQueue = [] :: nat list, Empty = True, Destroying = False, Running = True,
               NumberOfThreads = 1, Threads = [ThreadWorker 0], Controller = None\<rparr>)
   \<and> SetNumberOfThreads_body executed 2
       (sch, [], \<lparr>InvokerQueue = [] :: nat list, Empty = True, Destroying = False, Running = True,
             NumberOfThreads = 1, Threads = [ThreadWorker 0], Controller = None :: unit option\<rparr>) =
     Inr (sch, [], \<lparr>InvokerQueue = [], Empty = True, Destroying = False, Running = True,
               NumberOfThreads = 2, Threads = [ThreadWorker 0, ThreadWorker 0],
               Controller = None\<rparr>)"
  by (simp add: Start_body_def vtkThreadedCallbackQueue_init_def joinable_def
      SetNumberOfThreads_body_def numeral_2_eq_2)

section \<open>The steps of the workers\<close>

text \<open>The ways a scheduled event can go, as a rule for case analysis.\<close>

lemma event_step_cases:
  assumes "event_step call e (w, s) = Inr (w', s')"
  obtains (idle) "w' = w" "s' = s"
  | (hold) p i where "e = Runs p" "p < length (Threads s)" "Threads s ! p = ThreadWorker i"
      "OnHold i s" "w' = w" "s' = s\<lparr>Threads := (Threads s)[p := InWait i]\<rparr>"
  | (leave) p i where "e = Runs p" "p < length (Threads s)" "Threads s ! p = ThreadWorker i"
      "\<not> OnHold i s" "\<not> Continue i s" "w' = w"
      "s' = s\<lparr>Threads := (Threads s)[p := Finished i]\<rparr>"
  | (pop) p i where "e = Runs p" "p < length (Threads s)" "Threads s ! p = ThreadWorker i"
      "Continue i s" "w' = w"
      "s' = s\<lparr>InvokerQueue := tl (InvokerQueue s), Empty := (tl (InvokerQueue s) = []),
              Threads := (Threads s)[p := Invoking i (hd (InvokerQueue s))]\<rparr>"
  | (call) p i x where "e = Runs p" "p < length (Threads s)" "Threads s ! p = Invoking i x"
      "call x w = Inr w'" "s' = s\<lparr>Threads := (Threads s)[p := ThreadWorker i]\<rparr>"
  | (woken) p i where "e = Wakes p" "p < length (Threads s)" "Threads s ! p = InWait i"
      "w' = w" "s' = s\<lparr>Threads := (Threads s)[p := ThreadWorker i]\<rparr>"
proof (cases e)
  case (Runs p)
  show ?thesis
  proof (cases "p < length (Threads s)")
    case False
    with assms Runs have "w' = w" "s' = s" by (auto simp: event_step_def worker_step_def)
    then show ?thesis by (rule idle)
  next
    case True
    show ?thesis
    proof (cases "Threads s ! p")
      case NotAThread
      with assms Runs True have "w' = w" "s' = s" by (auto simp: event_step_def worker_step_def)
      then show ?thesis by (rule idle)
    next
      case (ThreadWorker i)
      show ?thesis
      proof (cases "OnHold i s")
        case h: True
        with assms Runs True ThreadWorker
        have "w' = w" "s' = s\<lparr>Threads := (Threads s)[p := InWait i]\<rparr>"
          by (auto simp: event_step_def worker_step_def)
        with Runs True ThreadWorker h show ?thesis by (intro hold)
      next
        case h: False
        show ?thesis
        proof (cases "Continue i s")
          case c: False
          with assms Runs True ThreadWorker h
          have "w' = w" "s' = s\<lparr>Threads := (Threads s)[p := Finished i]\<rparr>"
            by (auto simp: event_step_def worker_step_def)
          with Runs True ThreadWorker h c show ?thesis by (intro leave)
        next
          case c: True
          with assms Runs True ThreadWorker h
          have "w' = w"
            "s' = s\<lparr>InvokerQueue := tl (InvokerQueue s), Empty := (tl (InvokerQueue s) = []),
              Threads := (Threads s)[p := Invoking i (hd (InvokerQueue s))]\<rparr>"
            by (auto simp: event_step_def worker_step_def Let_def)
          with Runs True ThreadWorker c show ?thesis by (intro pop)
        qed
      qed
    next
      case (InWait i)
      with assms Runs True have "w' = w" "s' = s" by (auto simp: event_step_def worker_step_def)
      then show ?thesis by (rule idle)
    next
      case (Invoking i x)
      with assms Runs True
      have "call x w = Inr w'" "s' = s\<lparr>Threads := (Threads s)[p := ThreadWorker i]\<rparr>"
        by (auto simp: event_step_def worker_step_def split: sum.splits)
      with Runs True Invoking show ?thesis by (intro call)
    next
      case (Finished i)
      with assms Runs True have "w' = w" "s' = s" by (auto simp: event_step_def worker_step_def)
      then show ?thesis by (rule idle)
    qed
  qed
next
  case (Wakes p)
  show ?thesis
  proof (cases "p < length (Threads s)")
    case False
    with assms Wakes have "w' = w" "s' = s" by (auto simp: event_step_def)
    then show ?thesis by (rule idle)
  next
    case True
    show ?thesis
    proof (cases "\<exists>i. Threads s ! p = InWait i")
      case True
      then obtain i where i: "Threads s ! p = InWait i" by blast
      with assms Wakes \<open>p < length (Threads s)\<close>
      have "w' = w" "s' = s\<lparr>Threads := (Threads s)[p := ThreadWorker i]\<rparr>"
        by (auto simp: event_step_def wake_def)
      with Wakes \<open>p < length (Threads s)\<close> i show ?thesis by (intro woken)
    next
      case False
      then have "wake (Threads s ! p) = Threads s ! p"
        by (cases "Threads s ! p") (auto simp: wake_def)
      with assms Wakes \<open>p < length (Threads s)\<close> have "w' = w" "s' = s"
        by (auto simp: event_step_def)
      then show ?thesis by (rule idle)
    qed
  qed
qed



lemma event_step_frame:
  assumes "event_step call e (w, s) = Inr (w', s')"
  shows "Destroying s' = Destroying s \<and> Running s' = Running s
       \<and> NumberOfThreads s' = NumberOfThreads s \<and> Controller s' = Controller s
       \<and> length (Threads s') = length (Threads s)"
  using assms by (cases rule: event_step_cases) auto

lemma event_step_Empty:
  assumes "event_step call e (w, s) = Inr (w', s')" and "Empty s = (InvokerQueue s = [])"
  shows "Empty s' = (InvokerQueue s' = [])"
  using assms by (cases rule: event_step_cases) auto

lemma event_step_queue:
  assumes "event_step call e (w, s) = Inr (w', s')"
  shows "InvokerQueue s' = InvokerQueue s
       \<or> (InvokerQueue s \<noteq> [] \<and> InvokerQueue s' = tl (InvokerQueue s))"
  using assms by (cases rule: event_step_cases) (auto simp: Continue_def)

lemma event_step_other:
  assumes "event_step call e (w, s) = Inr (w', s')" and "e \<noteq> Runs q" and "e \<noteq> Wakes q"
  shows "Threads s' ! q = Threads s ! q"
  using assms by (cases rule: event_step_cases) auto

lemma event_step_Finished:
  assumes "event_step call e (w, s) = Inr (w', s')" and "Threads s ! q = Finished i"
  shows "Threads s' ! q = Finished i"
  using assms(1)
proof (cases rule: event_step_cases)
  case idle then show ?thesis using assms(2) by simp
next
  case (hold p j) then show ?thesis using assms(2) by (cases "p = q") auto
next
  case (leave p j) then show ?thesis using assms(2) by (cases "p = q") auto
next
  case (pop p j) then show ?thesis using assms(2) by (cases "p = q") auto
next
  case (call p j x) then show ?thesis using assms(2) by (cases "p = q") auto
next
  case (woken p j) then show ?thesis using assms(2) by (cases "p = q") auto
qed

lemma run_events_append:
  "run_events call (xs @ ys) ws =
     (case run_events call xs ws of Inl e \<Rightarrow> Inl e | Inr ws' \<Rightarrow> run_events call ys ws')"
  by (induction xs arbitrary: ws) (auto split: sum.splits)

lemma run_events_invariant:
  assumes "run_events call sch ws = Inr ws'" and "P ws"
    and "\<And>e ws ws'. P ws \<Longrightarrow> event_step call e ws = Inr ws' \<Longrightarrow> P ws'"
  shows "P ws'"
  using assms(1,2)
proof (induction sch arbitrary: ws)
  case Nil
  then show ?case by simp
next
  case (Cons e sch)
  from Cons.prems(1) obtain ws1 where e: "event_step call e ws = Inr ws1"
    and r: "run_events call sch ws1 = Inr ws'"
    by (auto split: sum.splits)
  from assms(3) [OF Cons.prems(2) e] have "P ws1" .
  from Cons.IH [OF r this] show ?case .
qed

lemma join_Inr:
  assumes "join call p sch ws = Inr (sch', ws')"
  shows "\<exists>xs i. sch = xs @ sch' \<and> run_events call xs ws = Inr ws'
           \<and> Threads (snd ws') ! p = Finished i"
  using assms
proof (induction sch arbitrary: ws)
  case Nil
  then show ?case by (cases "Threads (snd ws) ! p") auto
next
  case (Cons e sch)
  show ?case
  proof (cases "\<exists>i. Threads (snd ws) ! p = Finished i")
    case True
    with Cons.prems have "sch' = e # sch" "ws' = ws" by auto
    with True show ?thesis by auto
  next
    case False
    with Cons.prems obtain ws1 where e: "event_step call e ws = Inr ws1"
      and j: "join call p sch ws1 = Inr (sch', ws')"
      by (cases "Threads (snd ws) ! p") (auto split: sum.splits)
    from Cons.IH [OF j] obtain xs i where "sch = xs @ sch'" "run_events call xs ws1 = Inr ws'"
      "Threads (snd ws') ! p = Finished i" by blast
    with e have "e # sch = (e # xs) @ sch'" "run_events call (e # xs) ws = Inr ws'" by auto
    with \<open>Threads (snd ws') ! p = Finished i\<close> show ?thesis by blast
  qed
qed

lemma run_events_Finished:
  assumes "run_events call sch ws = Inr ws'" and "Threads (snd ws) ! q = Finished i"
  shows "Threads (snd ws') ! q = Finished i"
  using assms
proof (induction sch arbitrary: ws)
  case Nil
  then show ?case by simp
next
  case (Cons e sch)
  from Cons.prems(1) obtain ws1 where e: "event_step call e ws = Inr ws1"
    and r: "run_events call sch ws1 = Inr ws'"
    by (auto split: sum.splits)
  from e Cons.prems(2) have "Threads (snd ws1) ! q = Finished i"
    using event_step_Finished [of call e "fst ws" "snd ws" "fst ws1" "snd ws1" q i] by simp
  from Cons.IH [OF r this] show ?case .
qed

lemma for_each_join_Inr:
  assumes "for_each_join call ps (sch, ws) = Inr (sch', ws')"
  shows "\<exists>xs. sch = xs @ sch' \<and> run_events call xs ws = Inr ws'
           \<and> (\<forall>p\<in>set ps. \<exists>i. Threads (snd ws') ! p = Finished i)"
  using assms
proof (induction ps arbitrary: sch ws)
  case Nil
  then show ?case by auto
next
  case (Cons p ps)
  from Cons.prems obtain sch1 ws1 where j: "join call p sch ws = Inr (sch1, ws1)"
    and f: "for_each_join call ps (sch1, ws1) = Inr (sch', ws')"
    by (auto split: sum.splits)
  from join_Inr [OF j] obtain xs i where xs: "sch = xs @ sch1" "run_events call xs ws = Inr ws1"
    "Threads (snd ws1) ! p = Finished i" by blast
  from Cons.IH [OF f] obtain ys where ys: "sch1 = ys @ sch'" "run_events call ys ws1 = Inr ws'"
    "\<forall>p\<in>set ps. \<exists>i. Threads (snd ws') ! p = Finished i" by blast
  from run_events_Finished [OF ys(2) xs(3)] have "Threads (snd ws') ! p = Finished i" .
  with xs ys have "sch = (xs @ ys) @ sch'" "run_events call (xs @ ys) ws = Inr ws'"
    "\<forall>p\<in>set (p # ps). \<exists>i. Threads (snd ws') ! p = Finished i"
    by (auto simp: run_events_append)
  then show ?case by blast
qed

lemma Sync_Inr:
  assumes "Sync call k (sch, w, s) = Inr (sch', w', s')"
  shows "0 \<le> k \<and> k \<le> int (length (Threads s))
       \<and> (\<exists>xs s1. sch = xs @ sch' \<and> run_events call xs (w, s) = Inr (w', s1)
            \<and> (\<forall>p. nat k \<le> p \<and> p < length (Threads s) \<longrightarrow> (\<exists>i. Threads s1 ! p = Finished i))
            \<and> s' = s1\<lparr>Threads := take (nat k) (Threads s1)
                         @ map (\<lambda>t. NotAThread) (drop (nat k) (Threads s1))\<rparr>)"
proof -
  from assms have k: "0 \<le> k" "k \<le> int (length (Threads s))"
    by (auto simp: Sync_def split: if_splits)
  with assms obtain s1 where
    f: "for_each_join call [nat k ..< length (Threads s)] (sch, w, s) = Inr (sch', w', s1)"
    and s': "s' = s1\<lparr>Threads := take (nat k) (Threads s1)
                         @ map (\<lambda>t. NotAThread) (drop (nat k) (Threads s1))\<rparr>"
    by (auto simp: Sync_def split: if_splits sum.splits)
  from for_each_join_Inr [OF f] obtain xs where "sch = xs @ sch'"
    "run_events call xs (w, s) = Inr (w', s1)"
    "\<forall>p\<in>set [nat k ..< length (Threads s)]. \<exists>i. Threads s1 ! p = Finished i"
    by auto
  with k s' show ?thesis by auto
qed


lemma run_events_frame:
  assumes "run_events call sch (w, s) = Inr (w', s')"
  shows "Destroying s' = Destroying s \<and> Running s' = Running s
       \<and> NumberOfThreads s' = NumberOfThreads s \<and> Controller s' = Controller s
       \<and> length (Threads s') = length (Threads s)
       \<and> (Empty s = (InvokerQueue s = []) \<longrightarrow> Empty s' = (InvokerQueue s' = []))
       \<and> (\<exists>k. InvokerQueue s' = drop k (InvokerQueue s))"
  using assms
proof (induction sch arbitrary: w s)
  case Nil
  then have "s' = s" by simp
  then have "InvokerQueue s' = drop 0 (InvokerQueue s)" by simp
  with \<open>s' = s\<close> show ?case by blast
next
  case (Cons e sch)
  from Cons.prems obtain w1 s1 where e: "event_step call e (w, s) = Inr (w1, s1)"
    and r: "run_events call sch (w1, s1) = Inr (w', s')"
    by (auto split: sum.splits)
  note f = event_step_frame [OF e] and ih = Cons.IH [OF r]
  from ih obtain k where k: "InvokerQueue s' = drop k (InvokerQueue s1)" by blast
  from event_step_queue [OF e] k
  have "InvokerQueue s' = drop k (InvokerQueue s) \<or> InvokerQueue s' = drop (Suc k) (InvokerQueue s)"
    by (auto simp: drop_Suc)
  then have "\<exists>k. InvokerQueue s' = drop k (InvokerQueue s)" by blast
  with f ih event_step_Empty [OF e] show ?case by simp
qed

lemma list_all_zip_upt:
  "list_all (\<lambda>(p, t). P p t) (zip [0 ..< length ts] ts) \<longleftrightarrow> (\<forall>p<length ts. P p (ts ! p))"
  by (simp add: list_all_length)

lemma consistent_iff:
  "consistent this \<longleftrightarrow>
     Empty this = (InvokerQueue this = [])
     \<and> int (length (Threads this)) = NumberOfThreads this
     \<and> \<not> Destroying this
     \<and> (if Running this
        then \<forall>p<length (Threads this). at_work p (Threads this ! p)
        else \<forall>p<length (Threads this). Threads this ! p = NotAThread)"
  by (simp add: consistent_def list_all_zip_upt list_all_length joinable_def)

lemma at_work_cases:
  assumes "at_work p t"
  obtains (head) i where "t = ThreadWorker i" "i \<le> int p"
  | (wait) i where "t = InWait i" "i \<le> int p"
  | (invoking) i x where "t = Invoking i x" "i \<le> int p"
  using assms by (cases t) (auto simp: at_work_def)

lemma event_step_at_work:
  assumes e: "event_step call e (w, s) = Inr (w', s')"
    and s: "Running s" "\<not> Destroying s" "int q < NumberOfThreads s"
    and q: "q < length (Threads s)" "at_work q (Threads s ! q)"
  shows "at_work q (Threads s' ! q)"
  using e
proof (cases rule: event_step_cases)
  case idle then show ?thesis using q by simp
next
  case (hold p j) then show ?thesis using q by (cases "p = q") (auto simp: at_work_def)
next
  case (leave p j)
  show ?thesis
  proof (cases "p = q")
    case True
    with leave q have "j \<le> int q" by (auto simp: at_work_def)
    with s leave(4,5) have False by (auto simp: OnHold_def Continue_def)
    then show ?thesis ..
  next
    case False
    with leave q show ?thesis by auto
  qed
next
  case (pop p j) then show ?thesis using q by (cases "p = q") (auto simp: at_work_def)
next
  case (call p j x) then show ?thesis using q by (cases "p = q") (auto simp: at_work_def)
next
  case (woken p j) then show ?thesis using q by (cases "p = q") (auto simp: at_work_def)
qed

lemma run_events_at_work:
  assumes "run_events call sch (w, s) = Inr (w', s')"
    and "Running s" "\<not> Destroying s" "int q < NumberOfThreads s"
    and "q < length (Threads s)" "at_work q (Threads s ! q)"
  shows "at_work q (Threads s' ! q)"
  using assms
proof (induction sch arbitrary: w s)
  case Nil
  then show ?case by simp
next
  case (Cons e sch)
  from Cons.prems(1) obtain w1 s1 where e: "event_step call e (w, s) = Inr (w1, s1)"
    and r: "run_events call sch (w1, s1) = Inr (w', s')"
    by (auto split: sum.splits)
  note f = event_step_frame [OF e]
  from event_step_at_work [OF e Cons.prems(2-6)] have "at_work q (Threads s1 ! q)" .
  with Cons.IH [OF r] f Cons.prems(2-5) show ?case by simp
qed

lemma event_step_NotAThread:
  assumes "event_step call e (w, s) = Inr (w', s')"
    and "\<forall>p<length (Threads s). Threads s ! p = NotAThread"
  shows "w' = w \<and> s' = s"
  using assms by (cases rule: event_step_cases) auto


section \<open>The thread handles\<close>

lemma length_generate_n: "length (generate_n k ts) = length ts + k"
  by (induction k arbitrary: ts) simp_all

lemma generate_eq:
  "list_all (\<lambda>t. \<not> joinable t) ts \<Longrightarrow>
   generate c ts = Inr (map (\<lambda>p. ThreadWorker (c + 1 + int p)) [0 ..< length ts])"
proof (induction ts arbitrary: c)
  case Nil
  show ?case by simp
next
  case (Cons t ts)
  have eq: "map (\<lambda>p. ThreadWorker (c + 1 + int p)) [0 ..< length (t # ts)] =
        ThreadWorker (c + 1) # map (\<lambda>p. ThreadWorker (c + 1 + 1 + int p)) [0 ..< length ts]"
    by (simp add: upt_conv_Cons map_Suc_upt [symmetric] del: upt_Suc)
  show ?case unfolding eq using Cons by simp
qed

lemma generate_Inr:
  "generate c ts = Inr ts' \<Longrightarrow>
   list_all (\<lambda>t. \<not> joinable t) ts
   \<and> ts' = map (\<lambda>p. ThreadWorker (c + 1 + int p)) [0 ..< length ts]"
proof (induction ts arbitrary: c ts')
  case Nil
  then show ?case by simp
next
  case (Cons t ts)
  from Cons.prems obtain ts1 where t: "\<not> joinable t" and g: "generate (c + 1) ts = Inr ts1"
    and ts': "ts' = ThreadWorker (c + 1) # ts1"
    by (auto split: if_splits sum.splits)
  have eq: "map (\<lambda>p. ThreadWorker (c + 1 + int p)) [0 ..< length (t # ts)] =
        ThreadWorker (c + 1) # map (\<lambda>p. ThreadWorker (c + 1 + 1 + int p)) [0 ..< length ts]"
    by (simp add: upt_conv_Cons map_Suc_upt [symmetric] del: upt_Suc)
  show ?case unfolding eq using Cons.IH [OF g] t ts' by simp
qed

lemma resize_eq:
  "0 \<le> n \<Longrightarrow> list_all (\<lambda>t. \<not> joinable t) (drop (nat n) ts) \<Longrightarrow>
   resize n ts = Inr (take (nat n) ts @ replicate (nat n - length ts) NotAThread)"
  by (auto simp: resize_def list_ex_iff list_all_iff)

lemma resize_Inr:
  "resize n ts = Inr ts' \<Longrightarrow>
   0 \<le> n \<and> list_all (\<lambda>t. \<not> joinable t) (drop (nat n) ts)
   \<and> ts' = take (nat n) ts @ replicate (nat n - length ts) NotAThread"
  by (auto simp: resize_def list_ex_iff list_all_iff split: if_splits)

section \<open>The bodies of the closures\<close>

lemma Stop_body_Inr:
  assumes "Running s" and "Stop_body call (sch, w, s) = Inr (sch', w', s')"
  shows "\<exists>xs s1. sch = xs @ sch'
           \<and> run_events call xs (w, notify_all (s\<lparr>Running := False\<rparr>)) = Inr (w', s1)
           \<and> (\<forall>p<length (Threads s). \<exists>i. Threads s1 ! p = Finished i)
           \<and> s' = s1\<lparr>Threads := map (\<lambda>t. NotAThread) (Threads s1)\<rparr>"
proof -
  from assms have "Sync call 0 (sch, w, notify_all (s\<lparr>Running := False\<rparr>)) = Inr (sch', w', s')"
    by (simp add: Stop_body_def Sync_default_startId_def)
  from Sync_Inr [OF this] show ?thesis by (simp add: notify_all_def)
qed

lemma destructor_body_Inr:
  assumes "Running s" and "destructor_body call (sch, w, s) = Inr (sch', w', s')"
  shows "\<exists>xs s1. sch = xs @ sch'
           \<and> run_events call xs (w, notify_all (s\<lparr>Destroying := True\<rparr>)) = Inr (w', s1)
           \<and> (\<forall>p<length (Threads s). \<exists>i. Threads s1 ! p = Finished i)
           \<and> s' = s1\<lparr>Threads := map (\<lambda>t. NotAThread) (Threads s1)\<rparr>"
proof -
  from assms have "Sync call 0 (sch, w, notify_all (s\<lparr>Destroying := True\<rparr>)) = Inr (sch', w', s')"
    by (simp add: destructor_body_def Sync_default_startId_def)
  from Sync_Inr [OF this] show ?thesis by (simp add: notify_all_def)
qed

lemma Start_body_Inr:
  assumes "\<not> Running s" and "Start_body (sch, w, s) = Inr (sch', w', s')"
  shows "sch' = sch \<and> w' = w \<and> list_all (\<lambda>t. \<not> joinable t) (Threads s)
       \<and> s' = s\<lparr>Running := True,
                Threads := map (\<lambda>p. ThreadWorker (int p)) [0 ..< length (Threads s)]\<rparr>"
proof -
  from assms obtain ts where g: "generate (- 1) (Threads s) = Inr ts"
    and "sch' = sch" "w' = w" "s' = s\<lparr>Running := True, Threads := ts\<rparr>"
    by (auto simp: Start_body_def split: sum.splits)
  with generate_Inr [OF g] show ?thesis by simp
qed

lemma Start_body_eq:
  assumes "\<not> Running s" and "list_all (\<lambda>t. \<not> joinable t) (Threads s)"
  shows "Start_body (sch, w, s) =
     Inr (sch, w, s\<lparr>Running := True,
                    Threads := map (\<lambda>p. ThreadWorker (int p)) [0 ..< length (Threads s)]\<rparr>)"
  using assms generate_eq [OF assms(2), of "- 1"] by (simp add: Start_body_def)

lemma SetNumberOfThreads_body_stopped:
  assumes "\<not> Running s" and "int (length (Threads s)) \<noteq> n"
    and "SetNumberOfThreads_body call n (sch, w, s) = Inr (sch', w', s')"
  shows "0 \<le> n \<and> sch' = sch \<and> w' = w \<and> list_all (\<lambda>t. \<not> joinable t) (drop (nat n) (Threads s))
       \<and> s' = s\<lparr>NumberOfThreads := n,
                Threads := take (nat n) (Threads s)
                  @ replicate (nat n - length (Threads s)) NotAThread\<rparr>"
proof -
  from assms obtain ts where r: "resize n (Threads s) = Inr ts"
    and "sch' = sch" "w' = w" "s' = s\<lparr>NumberOfThreads := n, Threads := ts\<rparr>"
    by (auto simp: SetNumberOfThreads_body_def split: sum.splits)
  with resize_Inr [OF r] show ?thesis by simp
qed

lemma SetNumberOfThreads_body_shrink_Inr:
  assumes "Running s" and "n < int (length (Threads s))"
    and "SetNumberOfThreads_body call n (sch, w, s) = Inr (sch', w', s')"
  shows "0 \<le> n
       \<and> (\<exists>xs s1. sch = xs @ sch'
            \<and> run_events call xs (w, notify_all (s\<lparr>NumberOfThreads := n\<rparr>)) = Inr (w', s1)
            \<and> (\<forall>p. nat n \<le> p \<and> p < length (Threads s) \<longrightarrow> (\<exists>i. Threads s1 ! p = Finished i))
            \<and> s' = s1\<lparr>Threads := take (nat n) (Threads s1)\<rparr>)"
proof -
  from assms obtain sch1 w1 s2 ts where
    y: "Sync call n (sch, w, notify_all (s\<lparr>NumberOfThreads := n\<rparr>)) = Inr (sch1, w1, s2)"
    and r: "resize n (Threads s2) = Inr ts"
    and e: "sch' = sch1" "w' = w1" "s' = s2\<lparr>Threads := ts\<rparr>"
    by (auto simp: SetNumberOfThreads_body_def notify_all_def split: sum.splits)
  from Sync_Inr [OF y] obtain xs s1 where n: "0 \<le> n" and xs: "sch = xs @ sch1"
    "run_events call xs (w, notify_all (s\<lparr>NumberOfThreads := n\<rparr>)) = Inr (w1, s1)"
    "\<forall>p. nat n \<le> p \<and> p < length (Threads s) \<longrightarrow> (\<exists>i. Threads s1 ! p = Finished i)"
    "s2 = s1\<lparr>Threads := take (nat n) (Threads s1)
                  @ map (\<lambda>t. NotAThread) (drop (nat n) (Threads s1))\<rparr>"
    by (auto simp: notify_all_def)
  from run_events_frame [OF xs(2)] have l: "length (Threads s1) = length (Threads s)"
    by (simp add: notify_all_def)
  from resize_Inr [OF r] xs(4) l assms(2) n have "ts = take (nat n) (Threads s1)"
    by simp
  with e xs n show ?thesis by auto
qed


section \<open>The reachable states are consistent\<close>

lemma consistent_init: "consistent (vtkThreadedCallbackQueue_init controller)"
  by (simp add: consistent_def vtkThreadedCallbackQueue_init_def joinable_def)

lemma consistent_Controller: "consistent this \<Longrightarrow> consistent (this\<lparr>Controller := controller\<rparr>)"
  by (simp add: consistent_def)

lemma consistent_Push: "consistent this \<Longrightarrow> consistent (Push invoker this)"
  by (simp add: consistent_def Push_def)

lemma consistent_event_step:
  assumes "consistent s" and e: "event_step call e (w, s) = Inr (w', s')"
  shows "consistent s'"
proof (cases "Running s")
  case False
  with assms(1) have "\<forall>p<length (Threads s). Threads s ! p = NotAThread"
    by (simp add: consistent_iff)
  from event_step_NotAThread [OF e this] assms(1) show ?thesis by simp
next
  case True
  note f = event_step_frame [OF e]
  from assms(1) True have c: "Empty s = (InvokerQueue s = [])"
    "int (length (Threads s)) = NumberOfThreads s" "\<not> Destroying s"
    "\<forall>p<length (Threads s). at_work p (Threads s ! p)"
    by (simp_all add: consistent_iff)
  have "at_work q (Threads s' ! q)" if "q < length (Threads s)" for q
    using event_step_at_work [OF e True c(3) _ that] c(2,4) that by simp
  with f c event_step_Empty [OF e] True show ?thesis by (simp add: consistent_iff)
qed

lemma consistent_Stop_body:
  assumes "consistent s" and "Stop_body call (sch, w, s) = Inr (sch', w', s')"
  shows "consistent s'"
proof (cases "Running s")
  case False
  with assms show ?thesis by (simp add: Stop_body_stopped)
next
  case True
  from Stop_body_Inr [OF True assms(2)] obtain xs s1 where
    r: "run_events call xs (w, notify_all (s\<lparr>Running := False\<rparr>)) = Inr (w', s1)"
    and s': "s' = s1\<lparr>Threads := map (\<lambda>t. NotAThread) (Threads s1)\<rparr>"
    by blast
  from run_events_frame [OF r] assms(1) show ?thesis
    by (simp add: s' consistent_iff notify_all_def)
qed

lemma consistent_Start_body:
  assumes "consistent s" and "Start_body (sch, w, s) = Inr (sch', w', s')"
  shows "consistent s'"
proof (cases "Running s")
  case True
  with assms show ?thesis by (simp add: Start_body_running)
next
  case False
  from Start_body_Inr [OF False assms(2)] assms(1) show ?thesis
    by (simp add: consistent_iff at_work_def)
qed

lemma consistent_SetNumberOfThreads_body:
  assumes "consistent s" and b: "SetNumberOfThreads_body call n (sch, w, s) = Inr (sch', w', s')"
  shows "consistent s'"
proof -
  consider (same) "int (length (Threads s)) = n"
    | (stopped) "int (length (Threads s)) \<noteq> n" "\<not> Running s"
    | (grow) "int (length (Threads s)) < n" "Running s"
    | (shrink) "n < int (length (Threads s))" "Running s"
    by (cases "Running s"; cases "int (length (Threads s))" n rule: linorder_cases) auto
  then show ?thesis
  proof cases
    case same
    with assms show ?thesis by (simp add: SetNumberOfThreads_body_same)
  next
    case stopped
    from SetNumberOfThreads_body_stopped [OF stopped(2,1) b]
    have n: "0 \<le> n"
      and s': "s' = s\<lparr>NumberOfThreads := n,
                Threads := take (nat n) (Threads s)
                  @ replicate (nat n - length (Threads s)) NotAThread\<rparr>"
      by simp_all
    from assms(1) stopped(2) have "\<forall>p<length (Threads s). Threads s ! p = NotAThread"
      by (simp add: consistent_iff)
    then have "\<forall>p<length (Threads s'). Threads s' ! p = NotAThread"
      by (auto simp: s' nth_append)
    moreover have "int (length (Threads s')) = n" using n by (auto simp: s')
    ultimately show ?thesis using assms(1) stopped(2) by (simp add: consistent_iff s')
  next
    case grow
    from SetNumberOfThreads_body_grow [OF grow(2,1), of call sch w] b
    have s': "s' = s\<lparr>NumberOfThreads := n,
        Threads := Threads s @ map (\<lambda>p. ThreadWorker (int p - 1)) [length (Threads s) ..< nat n]\<rparr>"
      by simp
    from assms(1) grow(2) have c: "Empty s = (InvokerQueue s = [])" "\<not> Destroying s"
      "\<forall>p<length (Threads s). at_work p (Threads s ! p)"
      by (simp_all add: consistent_iff)
    have l: "length (Threads s') = nat n" using grow(1) by (simp add: s')
    have "at_work p (Threads s' ! p)" if "p < nat n" for p
      using c(3) that grow(1) by (auto simp: s' nth_append at_work_def)
    with l have t: "\<forall>p<length (Threads s'). at_work p (Threads s' ! p)" by simp
    have "Empty s' = Empty s" "InvokerQueue s' = InvokerQueue s" "Destroying s' = Destroying s"
      "Running s' = Running s" "NumberOfThreads s' = n"
      by (simp_all add: s')
    with c l t grow show ?thesis unfolding consistent_iff by simp
  next
    case shrink
    from SetNumberOfThreads_body_shrink_Inr [OF shrink(2,1) b] obtain xs s1 where
      n: "0 \<le> n"
      and r: "run_events call xs (w, notify_all (s\<lparr>NumberOfThreads := n\<rparr>)) = Inr (w', s1)"
      and s': "s' = s1\<lparr>Threads := take (nat n) (Threads s1)\<rparr>"
      by blast
    note f = run_events_frame [OF r]
    from assms(1) shrink(2) have c: "Empty s = (InvokerQueue s = [])"
      "int (length (Threads s)) = NumberOfThreads s" "\<not> Destroying s"
      "\<forall>p<length (Threads s). at_work p (Threads s ! p)"
      by (simp_all add: consistent_iff)
    have w: "at_work q (wake (Threads s ! q))" if "q < length (Threads s)" for q
      using c(4) that by (cases "Threads s ! q") (auto simp: at_work_def wake_def)
    have "at_work q (Threads s1 ! q)" if "q < nat n" for q
    proof (rule run_events_at_work [OF r])
      show "Running (notify_all (s\<lparr>NumberOfThreads := n\<rparr>))"
        using shrink(2) by (simp add: notify_all_def)
      show "\<not> Destroying (notify_all (s\<lparr>NumberOfThreads := n\<rparr>))"
        using c(3) by (simp add: notify_all_def)
      show "int q < NumberOfThreads (notify_all (s\<lparr>NumberOfThreads := n\<rparr>))"
        using that by (simp add: notify_all_def)
      show "q < length (Threads (notify_all (s\<lparr>NumberOfThreads := n\<rparr>)))"
        using that shrink(1) by (simp add: notify_all_def)
      show "at_work q (Threads (notify_all (s\<lparr>NumberOfThreads := n\<rparr>)) ! q)"
        using that shrink(1) w [of q] by (simp add: notify_all_def)
    qed
    then have "\<forall>p<length (Threads s'). at_work p (Threads s' ! p)"
      by (simp add: s')
    moreover have "int (length (Threads s')) = n" using n shrink(1) f
      by (simp add: s' notify_all_def)
    ultimately show ?thesis using f c shrink(2) by (simp add: consistent_iff s' notify_all_def)
  qed
qed

lemma consistent_invoke:
  "consistent s \<Longrightarrow> invoke call f (sch, w, s) = Inr (sch', w', s') \<Longrightarrow> consistent s'"
  by (cases f)
    (auto dest: consistent_SetNumberOfThreads_body consistent_Stop_body consistent_Start_body)

lemma reachable_consistent: "reachable call ws \<Longrightarrow> consistent (snd ws)"
proof (induction rule: reachable.induct)
  case (constructed w controller)
  show ?case by (simp add: consistent_init)
next
  case (outside w this w' controller)
  then show ?case by (simp add: consistent_Controller)
next
  case (pushed w this invoker)
  then show ?case by (simp add: consistent_Push)
next
  case (stepped ws e ws')
  then show ?case by (cases ws, cases ws') (auto dest: consistent_event_step)
next
  case (invoked w this f sch sch' ws')
  then show ?case by (cases ws') (auto dest: consistent_invoke)
qed


section \<open>The Empty flag\<close>

lemma Pop_cases:
  assumes "Pop call i (w, s) = Inr (r, w', s')"
  shows "(r = Wait \<and> OnHold i s \<and> w' = w \<and> s' = s)
       \<or> (r = Return False \<and> \<not> OnHold i s \<and> \<not> Continue i s \<and> w' = w \<and> s' = s)
       \<or> (r = Return True \<and> Continue i s \<and> call (hd (InvokerQueue s)) w = Inr w'
            \<and> s' = s\<lparr>InvokerQueue := tl (InvokerQueue s), Empty := (tl (InvokerQueue s) = [])\<rparr>)"
  using assms by (auto simp: Pop_def Let_def split: if_splits sum.splits)

lemma event_step_pops:
  assumes "event_step call e (w, s) = Inr (w', s')" and "InvokerQueue s' \<noteq> InvokerQueue s"
  shows "InvokerQueue s' = tl (InvokerQueue s) \<and> Empty s' = (InvokerQueue s' = [])"
  using assms by (cases rule: event_step_cases) auto

text \<open>
  C8: in every reachable state the \<^verbatim>\<open>Empty\<close> flag is set exactly when the queue of
  invokers is empty. The two operations that change the queue of invokers set the flag
  in the same critical section (which is one step here): after a \<^verbatim>\<open>Pop\<close> that has
  popped, and after \<^verbatim>\<open>Push\<close>, the flag is right whatever it was before; and among the
  steps of the interleaved workers, a step that changes the queue of invokers is a pop
  and sets the flag in the same step.
\<close>

theorem Empty_flag:
  "(reachable call (w, this) \<longrightarrow> Empty this = (InvokerQueue this = []))
   \<and> (Pop call ThreadId (w0, s0) = Inr (Return True, w1, s1) \<longrightarrow>
        InvokerQueue s1 = tl (InvokerQueue s0) \<and> Empty s1 = (InvokerQueue s1 = []))
   \<and> Empty (Push invoker s0) = (InvokerQueue (Push invoker s0) = [])
   \<and> (event_step call e (w2, s2) = Inr (w3, s3) \<and> InvokerQueue s3 \<noteq> InvokerQueue s2 \<longrightarrow>
        InvokerQueue s3 = tl (InvokerQueue s2) \<and> Empty s3 = (InvokerQueue s3 = []))"
proof (intro conjI impI)
  assume "reachable call (w, this)"
  from reachable_consistent [OF this] show "Empty this = (InvokerQueue this = [])"
    by (simp add: consistent_def)
next
  assume p: "Pop call ThreadId (w0, s0) = Inr (Return True, w1, s1)"
  from Pop_cases [OF p] show "InvokerQueue s1 = tl (InvokerQueue s0)" by auto
  from Pop_cases [OF p] show "Empty s1 = (InvokerQueue s1 = [])" by auto
next
  show "Empty (Push invoker s0) = (InvokerQueue (Push invoker s0) = [])"
    by (simp add: Push_def)
next
  assume e: "event_step call e (w2, s2) = Inr (w3, s3) \<and> InvokerQueue s3 \<noteq> InvokerQueue s2"
  then show "InvokerQueue s3 = tl (InvokerQueue s2)" by (auto dest: event_step_pops)
  from e show "Empty s3 = (InvokerQueue s3 = [])" by (auto dest: event_step_pops)
qed

theorem Empty_flag_witness:
  "reachable executed ([] :: nat list, Push 7 (vtkThreadedCallbackQueue_init (None :: unit option)))
   \<and> Empty (Push (7 :: nat) (vtkThreadedCallbackQueue_init (None :: unit option))) = False
   \<and> Pop executed 0 ([] :: nat list,
        \<lparr>InvokerQueue = [7], Empty = False, Destroying = False, Running = True,
         NumberOfThreads = 1, Threads = [ThreadWorker 0], Controller = None :: unit option\<rparr>)
       = Inr (Return True, [7],
        \<lparr>InvokerQueue = [], Empty = True, Destroying = False, Running = True,
         NumberOfThreads = 1, Threads = [ThreadWorker 0], Controller = None\<rparr>)
   \<and> event_step executed (Runs 0) ([] :: nat list,
        \<lparr>InvokerQueue = [7], Empty = False, Destroying = False, Running = True,
         NumberOfThreads = 1, Threads = [ThreadWorker 0], Controller = None :: unit option\<rparr>)
       = Inr ([],
        \<lparr>InvokerQueue = [], Empty = True, Destroying = False, Running = True,
         NumberOfThreads = 1, Threads = [Invoking 0 7], Controller = None\<rparr>)"
proof -
  have r: "reachable executed ([] :: nat list, Push 7 (vtkThreadedCallbackQueue_init (None :: unit option)))"
    by (intro reachable.pushed reachable.constructed)
  have p: "Pop executed 0 ([] :: nat list,
        \<lparr>InvokerQueue = [7], Empty = False, Destroying = False, Running = True,
         NumberOfThreads = 1, Threads = [ThreadWorker 0], Controller = None :: unit option\<rparr>)
       = Inr (Return True, [7],
        \<lparr>InvokerQueue = [], Empty = True, Destroying = False, Running = True,
         NumberOfThreads = 1, Threads = [ThreadWorker 0], Controller = None\<rparr>)"
    by (simp add: Pop_def OnHold_def Continue_def executed_def)
  have e: "event_step executed (Runs 0) ([] :: nat list,
        \<lparr>InvokerQueue = [7], Empty = False, Destroying = False, Running = True,
         NumberOfThreads = 1, Threads = [ThreadWorker 0], Controller = None :: unit option\<rparr>)
       = Inr ([],
        \<lparr>InvokerQueue = [], Empty = True, Destroying = False, Running = True,
         NumberOfThreads = 1, Threads = [Invoking 0 7], Controller = None\<rparr>)"
    by (simp add: event_step_def worker_step_def OnHold_def Continue_def)
  show ?thesis
    using r p e
      Empty_flag [of executed "[] :: nat list"
        "Push 7 (vtkThreadedCallbackQueue_init (None :: unit option))" 0 "[]"
        "\<lparr>InvokerQueue = [7], Empty = False, Destroying = False, Running = True,
         NumberOfThreads = 1, Threads = [ThreadWorker 0], Controller = None :: unit option\<rparr>"
        "[7]"
        "\<lparr>InvokerQueue = [], Empty = True, Destroying = False, Running = True,
         NumberOfThreads = 1, Threads = [ThreadWorker 0], Controller = None :: unit option\<rparr>"
        7 "Runs 0" "[]"
        "\<lparr>InvokerQueue = [7], Empty = False, Destroying = False, Running = True,
         NumberOfThreads = 1, Threads = [ThreadWorker 0], Controller = None :: unit option\<rparr>"
        "[]"
        "\<lparr>InvokerQueue = [], Empty = True, Destroying = False, Running = True,
         NumberOfThreads = 1, Threads = [Invoking 0 7], Controller = None :: unit option\<rparr>"]
    by (simp add: Push_def vtkThreadedCallbackQueue_init_def)
qed


text \<open>
  \<^verbatim>\<open>Pop\<close>, read as sequential code, is what the steps of one worker do when no other
  thread takes a step in between.
\<close>

lemma Pop_steps:
  assumes "p < length (Threads s)" and "Threads s ! p = ThreadWorker i"
  shows "Pop call i (w, s) = Inr (Wait, w', s') \<longrightarrow>
           run_events call [Runs p] (w, s) = Inr (w', s'\<lparr>Threads := (Threads s)[p := InWait i]\<rparr>)"
    and "Pop call i (w, s) = Inr (Return False, w', s') \<longrightarrow>
           run_events call [Runs p] (w, s)
             = Inr (w', s'\<lparr>Threads := (Threads s)[p := Finished i]\<rparr>)"
    and "Pop call i (w, s) = Inr (Return True, w', s') \<longrightarrow>
           run_events call [Runs p, Runs p] (w, s) = Inr (w', s')"
proof -
  show "Pop call i (w, s) = Inr (Wait, w', s') \<longrightarrow>
           run_events call [Runs p] (w, s) = Inr (w', s'\<lparr>Threads := (Threads s)[p := InWait i]\<rparr>)"
    using assms by (auto dest!: Pop_cases simp: event_step_def worker_step_def)
  show "Pop call i (w, s) = Inr (Return False, w', s') \<longrightarrow>
           run_events call [Runs p] (w, s)
             = Inr (w', s'\<lparr>Threads := (Threads s)[p := Finished i]\<rparr>)"
    using assms by (auto dest!: Pop_cases simp: event_step_def worker_step_def)
  show "Pop call i (w, s) = Inr (Return True, w', s') \<longrightarrow>
           run_events call [Runs p, Runs p] (w, s) = Inr (w', s')"
  proof
    assume "Pop call i (w, s) = Inr (Return True, w', s')"
    from Pop_cases [OF this] have c: "Continue i s" and k: "call (hd (InvokerQueue s)) w = Inr w'"
      and s': "s' = s\<lparr>InvokerQueue := tl (InvokerQueue s), Empty := (tl (InvokerQueue s) = [])\<rparr>"
      by auto
    have "(Threads s)[p := ThreadWorker i] = Threads s"
      using assms by (metis list_update_id)
    with assms c k Continue_not_OnHold [OF c]
    show "run_events call [Runs p, Runs p] (w, s) = Inr (w', s')"
      by (simp add: event_step_def worker_step_def Let_def s')
  qed
qed


section \<open>Shrinking a running queue\<close>

lemma event_step_total:
  assumes "\<forall>x w. \<exists>w'. call x w = Inr w'"
  shows "\<exists>ws'. event_step call e ws = Inr ws'"
proof (cases ws)
  case (Pair w s)
  show ?thesis
  proof (cases e)
    case (Wakes p)
    with Pair show ?thesis by (simp add: event_step_def)
  next
    case (Runs p)
    show ?thesis
    proof (cases "p < length (Threads s)")
      case False
      with Pair Runs show ?thesis by (simp add: event_step_def worker_step_def)
    next
      case True
      show ?thesis
      proof (cases "Threads s ! p")
        case (Invoking i x)
        from assms obtain w' where "call x w = Inr w'" by blast
        with Pair Runs True Invoking show ?thesis by (simp add: event_step_def worker_step_def)
      qed (use Pair Runs True in \<open>simp_all add: event_step_def worker_step_def Let_def\<close>)
    qed
  qed
qed

lemma run_events_total:
  assumes "\<forall>x w. \<exists>w'. call x w = Inr w'"
  shows "\<exists>ws'. run_events call sch ws = Inr ws'"
proof (induction sch arbitrary: ws)
  case Nil
  show ?case by simp
next
  case (Cons e sch)
  from event_step_total [OF assms, of e ws] obtain ws1 where "event_step call e ws = Inr ws1"
    by blast
  with Cons [of ws1] show ?case by simp
qed

lemma executed_total: "\<forall>x w. \<exists>w'. executed x w = Inr w'"
  by (simp add: executed_def)

lemma event_step_in_service:
  assumes e: "event_step call e (w, s) = Inr (w', s')"
    and s: "Running s" "\<not> Destroying s"
    and q: "q < length (Threads s)" "in_service (NumberOfThreads s) (Threads s ! q)"
  shows "in_service (NumberOfThreads s') (Threads s' ! q)"
  using e
proof (cases rule: event_step_cases)
  case idle then show ?thesis using q by simp
next
  case (hold p j) then show ?thesis using q by (cases "p = q") (auto simp: in_service_def)
next
  case (leave p j)
  show ?thesis
  proof (cases "p = q")
    case True
    with leave q have "j < NumberOfThreads s" by (auto simp: in_service_def)
    with s leave(4,5) have False by (auto simp: OnHold_def Continue_def)
    then show ?thesis ..
  next
    case False
    with leave q show ?thesis by auto
  qed
next
  case (pop p j) then show ?thesis using q by (cases "p = q") (auto simp: in_service_def)
next
  case (call p j x) then show ?thesis using q by (cases "p = q") (auto simp: in_service_def)
next
  case (woken p j) then show ?thesis using q by (cases "p = q") (auto simp: in_service_def)
qed

text \<open>
  A worker in service of a running queue that is not being destroyed does not leave its
  loop, whatever the schedule: joining it does not return.
\<close>

lemma join_in_service:
  assumes "\<forall>x w. \<exists>w'. call x w = Inr w'"
    and "Running s" "\<not> Destroying s"
    and "p < length (Threads s)" "in_service (NumberOfThreads s) (Threads s ! p)"
  shows "join call p sch (w, s) = Inl JoinBlocks"
  using assms(2-)
proof (induction sch arbitrary: w s)
  case Nil
  then show ?case by (cases "Threads s ! p") (auto simp: in_service_def)
next
  case (Cons e sch)
  from event_step_total [OF assms(1), of e "(w, s)"] obtain w1 s1
    where e: "event_step call e (w, s) = Inr (w1, s1)" by fastforce
  note f = event_step_frame [OF e]
  from event_step_in_service [OF e Cons.prems]
  have "in_service (NumberOfThreads s1) (Threads s1 ! p)" .
  with Cons.IH [of s1 w1] f Cons.prems have "join call p sch (w1, s1) = Inl JoinBlocks" by simp
  with e Cons.prems(4) show ?case by (cases "Threads s ! p") (auto simp: in_service_def)
qed

lemma join_Finished:
  "Threads (snd ws) ! p = Finished i \<Longrightarrow> join call p sch ws = Inr (sch, ws)"
  by (cases sch) simp_all

lemma in_service_wake: "in_service n (wake t) = in_service n t"
  by (cases t) (simp_all add: in_service_def wake_def)

lemma SetNumberOfThreads_body_blocks:
  assumes "\<forall>x w. \<exists>w'. call x w = Inr w'"
    and "Running s" "\<not> Destroying s" "0 \<le> n" "n < int (length (Threads s))"
    and "in_service n (Threads s ! nat n)"
  shows "SetNumberOfThreads_body call n (sch, w, s) = Inl JoinBlocks"
proof -
  let ?s = "notify_all (s\<lparr>NumberOfThreads := n\<rparr>)"
  have "join call (nat n) sch (w, ?s) = Inl JoinBlocks"
    using assms(2-) by (intro join_in_service [OF assms(1)])
      (simp_all add: notify_all_def in_service_wake)
  moreover have "[nat n ..< length (Threads s)] = nat n # [Suc (nat n) ..< length (Threads s)]"
    using assms(4,5) by (simp add: upt_conv_Cons)
  ultimately have "Sync call n (sch, w, ?s) = Inl JoinBlocks"
    using assms(4,5) by (simp add: Sync_def notify_all_def)
  with assms(2,5) show ?thesis by (simp add: SetNumberOfThreads_body_def)
qed

text \<open>
  C4 (the code differs): a queue is started with one thread and grown to two; both
  workers have the id 0. \<^verbatim>\<open>SetNumberOfThreads(1)\<close> sets the desired count to 1 and
  joins the thread at position 1. Its worker has the id 0, which is below 1: the worker
  is in service, finds the queue empty and waits, and the join does not return,
  whatever the schedule \<open>sch\<close> of the workers.
\<close>

theorem shrink_after_grow:
  "Start_body (sch, [] :: nat list, vtkThreadedCallbackQueue_init (None :: unit option)) =
     Inr (sch, [], \<lparr>InvokerQueue = [] :: nat list, Empty = True, Destroying = False, Running = True,
               NumberOfThreads = 1, Threads = [ThreadWorker 0], Controller = None\<rparr>)
   \<and> SetNumberOfThreads_body executed 2
       (sch, [], \<lparr>InvokerQueue = [] :: nat list, Empty = True, Destroying = False, Running = True,
             NumberOfThreads = 1, Threads = [ThreadWorker 0], Controller = None :: unit option\<rparr>) =
     Inr (sch, [], \<lparr>InvokerQueue = [], Empty = True, Destroying = False, Running = True,
               NumberOfThreads = 2, Threads = [ThreadWorker 0, ThreadWorker 0],
               Controller = None\<rparr>)
   \<and> SetNumberOfThreads_body executed 1
       (sch, [], \<lparr>InvokerQueue = [] :: nat list, Empty = True, Destroying = False, Running = True,
             NumberOfThreads = 2, Threads = [ThreadWorker 0, ThreadWorker 0],
             Controller = None :: unit option\<rparr>) =
     Inl JoinBlocks"
proof (intro conjI)
  show "Start_body (sch, [] :: nat list, vtkThreadedCallbackQueue_init (None :: unit option)) =
     Inr (sch, [], \<lparr>InvokerQueue = [] :: nat list, Empty = True, Destroying = False, Running = True,
               NumberOfThreads = 1, Threads = [ThreadWorker 0], Controller = None\<rparr>)"
    by (simp add: Start_body_def vtkThreadedCallbackQueue_init_def joinable_def)
  show "SetNumberOfThreads_body executed 2
       (sch, [], \<lparr>InvokerQueue = [] :: nat list, Empty = True, Destroying = False, Running = True,
             NumberOfThreads = 1, Threads = [ThreadWorker 0], Controller = None :: unit option\<rparr>) =
     Inr (sch, [], \<lparr>InvokerQueue = [], Empty = True, Destroying = False, Running = True,
               NumberOfThreads = 2, Threads = [ThreadWorker 0, ThreadWorker 0],
               Controller = None\<rparr>)"
    by (simp add: SetNumberOfThreads_body_def numeral_2_eq_2)
  show "SetNumberOfThreads_body executed 1
       (sch, [], \<lparr>InvokerQueue = [] :: nat list, Empty = True, Destroying = False, Running = True,
             NumberOfThreads = 2, Threads = [ThreadWorker 0, ThreadWorker 0],
             Controller = None :: unit option\<rparr>) =
     Inl JoinBlocks"
    by (rule SetNumberOfThreads_body_blocks [OF executed_total]) (simp_all add: in_service_def)
qed

text \<open>
  C10 (the code differs): a queue is started, its thread count is set to 0 (the worker,
  once it is scheduled, leaves its loop and is joined) and then to 1; the new worker has
  the id -1. \<^verbatim>\<open>SetNumberOfThreads(0)\<close> now joins this worker, whose id is below 0: it
  is in service and waits, and the join does not return, whatever the schedule \<open>sch\<close> of
  the workers.
\<close>

theorem shrink_to_zero_after_grow:
  "Start_body (sch, [] :: nat list, vtkThreadedCallbackQueue_init (None :: unit option)) =
     Inr (sch, [], \<lparr>InvokerQueue = [] :: nat list, Empty = True, Destroying = False, Running = True,
               NumberOfThreads = 1, Threads = [ThreadWorker 0], Controller = None\<rparr>)
   \<and> SetNumberOfThreads_body executed 0
       (Runs 0 # sch, [],
        \<lparr>InvokerQueue = [] :: nat list, Empty = True, Destroying = False, Running = True,
         NumberOfThreads = 1, Threads = [ThreadWorker 0], Controller = None :: unit option\<rparr>) =
     Inr (sch, [], \<lparr>InvokerQueue = [], Empty = True, Destroying = False, Running = True,
               NumberOfThreads = 0, Threads = [], Controller = None\<rparr>)
   \<and> SetNumberOfThreads_body executed 1
       (sch, [], \<lparr>InvokerQueue = [] :: nat list, Empty = True, Destroying = False, Running = True,
             NumberOfThreads = 0, Threads = [], Controller = None :: unit option\<rparr>) =
     Inr (sch, [], \<lparr>InvokerQueue = [], Empty = True, Destroying = False, Running = True,
               NumberOfThreads = 1, Threads = [ThreadWorker (- 1)], Controller = None\<rparr>)
   \<and> SetNumberOfThreads_body executed 0
       (sch, [], \<lparr>InvokerQueue = [] :: nat list, Empty = True, Destroying = False, Running = True,
             NumberOfThreads = 1, Threads = [ThreadWorker (- 1)],
             Controller = None :: unit option\<rparr>) =
     Inl JoinBlocks"
proof (intro conjI)
  show "Start_body (sch, [] :: nat list, vtkThreadedCallbackQueue_init (None :: unit option)) =
     Inr (sch, [], \<lparr>InvokerQueue = [] :: nat list, Empty = True, Destroying = False, Running = True,
               NumberOfThreads = 1, Threads = [ThreadWorker 0], Controller = None\<rparr>)"
    by (simp add: Start_body_def vtkThreadedCallbackQueue_init_def joinable_def)
  show "SetNumberOfThreads_body executed 0
       (Runs 0 # sch, [],
        \<lparr>InvokerQueue = [] :: nat list, Empty = True, Destroying = False, Running = True,
         NumberOfThreads = 1, Threads = [ThreadWorker 0], Controller = None :: unit option\<rparr>) =
     Inr (sch, [], \<lparr>InvokerQueue = [], Empty = True, Destroying = False, Running = True,
               NumberOfThreads = 0, Threads = [], Controller = None\<rparr>)"
    by (simp add: SetNumberOfThreads_body_def Sync_def notify_all_def wake_def event_step_def
        worker_step_def OnHold_def Continue_def join_Finished resize_def joinable_def)
  show "SetNumberOfThreads_body executed 1
       (sch, [], \<lparr>InvokerQueue = [] :: nat list, Empty = True, Destroying = False, Running = True,
             NumberOfThreads = 0, Threads = [], Controller = None :: unit option\<rparr>) =
     Inr (sch, [], \<lparr>InvokerQueue = [], Empty = True, Destroying = False, Running = True,
               NumberOfThreads = 1, Threads = [ThreadWorker (- 1)], Controller = None\<rparr>)"
    by (simp add: SetNumberOfThreads_body_def)
  show "SetNumberOfThreads_body executed 0
       (sch, [], \<lparr>InvokerQueue = [] :: nat list, Empty = True, Destroying = False, Running = True,
             NumberOfThreads = 1, Threads = [ThreadWorker (- 1)],
             Controller = None :: unit option\<rparr>) =
     Inl JoinBlocks"
    by (rule SetNumberOfThreads_body_blocks [OF executed_total]) (simp_all add: in_service_def)
qed


section \<open>Every invoker is called once\<close>

lemma held_update:
  "p < length ts \<Longrightarrow>
   mset (concat (map held (ts[p := t]))) + mset (held (ts ! p))
     = mset (concat (map held ts)) + mset (held t)"
proof (induction ts arbitrary: p)
  case Nil
  then show ?case by simp
next
  case (Cons a ts)
  show ?case
  proof (cases p)
    case 0
    then show ?thesis by simp
  next
    case (Suc q)
    with Cons.prems have "q < length ts" by simp
    from Cons.IH [OF this] Suc show ?thesis by simp
  qed
qed

lemma in_flight_update:
  "p < length (Threads s) \<Longrightarrow>
   mset (in_flight (s\<lparr>Threads := (Threads s)[p := t]\<rparr>)) + mset (held (Threads s ! p))
     = mset (in_flight s) + mset (held t)"
  using held_update [of p "Threads s" t] by (simp add: in_flight_def)

lemma in_flight_update_same:
  "p < length (Threads s) \<Longrightarrow> held (Threads s ! p) = held t \<Longrightarrow>
   mset (in_flight (s\<lparr>Threads := (Threads s)[p := t]\<rparr>)) = mset (in_flight s)"
  using in_flight_update [of p s t] by simp

lemma in_flight_frame [simp]:
  "in_flight (s\<lparr>InvokerQueue := q\<rparr>) = in_flight s"
  "in_flight (s\<lparr>Empty := b\<rparr>) = in_flight s"
  "in_flight (s\<lparr>Running := b\<rparr>) = in_flight s"
  "in_flight (s\<lparr>Destroying := b\<rparr>) = in_flight s"
  "in_flight (s\<lparr>NumberOfThreads := n\<rparr>) = in_flight s"
  "in_flight (s\<lparr>Controller := c\<rparr>) = in_flight s"
  by (simp_all add: in_flight_def)

lemma event_step_conserves:
  assumes "event_step executed e (w, s) = Inr (w', s')"
  shows "mset w' + mset (in_flight s') + mset (InvokerQueue s')
       = mset w + mset (in_flight s) + mset (InvokerQueue s)"
  using assms
proof (cases rule: event_step_cases)
  case idle
  then show ?thesis by simp
next
  case (hold p i)
  with in_flight_update_same [of p s "InWait i"] show ?thesis by (simp add: held_def)
next
  case (leave p i)
  with in_flight_update_same [of p s "Finished i"] show ?thesis by (simp add: held_def)
next
  case (pop p i)
  then obtain x xs where q: "InvokerQueue s = x # xs"
    by (cases "InvokerQueue s") (auto simp: Continue_def)
  from pop have "in_flight s' = in_flight (s\<lparr>Threads := (Threads s)[p := Invoking i x]\<rparr>)"
    by (simp add: q in_flight_def)
  with in_flight_update [of p s "Invoking i x"] pop
  have "mset (in_flight s') = mset (in_flight s) + {#x#}" by (simp add: held_def)
  with pop q show ?thesis by simp
next
  case (call p i x)
  with in_flight_update [of p s "ThreadWorker i"]
  have "mset (in_flight s') + {#x#} = mset (in_flight s)" by (simp add: held_def)
  then have eq: "mset (in_flight s) = mset (in_flight s') + {#x#}" by simp
  from call have w': "w' = w @ [x]" by (simp add: executed_def)
  from call have q: "InvokerQueue s' = InvokerQueue s" by simp
  show ?thesis unfolding eq w' q by simp
next
  case (woken p i)
  with in_flight_update_same [of p s "ThreadWorker i"] show ?thesis by (simp add: held_def)
qed

lemma run_events_conserves:
  assumes "run_events executed sch (w, s) = Inr (w', s')"
  shows "mset w' + mset (in_flight s') + mset (InvokerQueue s')
       = mset w + mset (in_flight s) + mset (InvokerQueue s)"
  using assms
proof (induction sch arbitrary: w s)
  case Nil
  then show ?case by simp
next
  case (Cons e sch)
  from Cons.prems obtain w1 s1 where e: "event_step executed e (w, s) = Inr (w1, s1)"
    and r: "run_events executed sch (w1, s1) = Inr (w', s')"
    by (auto split: sum.splits)
  from Cons.IH [OF r] event_step_conserves [OF e] show ?case by simp
qed

lemma held_wake [simp]: "held (wake t) = held t"
  by (cases t) (simp_all add: held_def wake_def)

lemma in_flight_notify_all [simp]: "in_flight (notify_all s) = in_flight s"
  by (simp add: in_flight_def notify_all_def comp_def)

lemma concat_held_take:
  assumes "\<forall>p. k \<le> p \<and> p < length ts \<longrightarrow> held (ts ! p) = []"
  shows "concat (map held (take k ts)) = concat (map held ts)"
proof -
  have "\<forall>t\<in>set (drop k ts). held t = []"
  proof
    fix t assume "t \<in> set (drop k ts)"
    then obtain j where "j < length (drop k ts)" "t = drop k ts ! j"
      by (auto simp: in_set_conv_nth)
    with assms show "held t = []" by simp
  qed
  then have "concat (map held (drop k ts)) = []" by simp
  moreover have "concat (map held ts) = concat (map held (take k ts)) @ concat (map held (drop k ts))"
    by (metis append_take_drop_id concat_append map_append)
  ultimately show ?thesis by simp
qed

lemma in_flight_joined:
  assumes "\<forall>p. k \<le> p \<and> p < length (Threads s) \<longrightarrow> (\<exists>i. Threads s ! p = Finished i)"
  shows "in_flight (s\<lparr>Threads := take k (Threads s)
                        @ map (\<lambda>t. NotAThread) (drop k (Threads s))\<rparr>) = in_flight s"
    and "in_flight (s\<lparr>Threads := take k (Threads s)\<rparr>) = in_flight s"
proof -
  from assms have "\<forall>p. k \<le> p \<and> p < length (Threads s) \<longrightarrow> held (Threads s ! p) = []"
    by (auto simp: held_def)
  from concat_held_take [OF this]
  show "in_flight (s\<lparr>Threads := take k (Threads s)\<rparr>) = in_flight s"
    by (simp add: in_flight_def)
  then show "in_flight (s\<lparr>Threads := take k (Threads s)
                        @ map (\<lambda>t. NotAThread) (drop k (Threads s))\<rparr>) = in_flight s"
    by (simp add: in_flight_def held_def comp_def)
qed


lemma notify_all_simps [simp]:
  "InvokerQueue (notify_all s) = InvokerQueue s"
  "Empty (notify_all s) = Empty s"
  "Destroying (notify_all s) = Destroying s"
  "Running (notify_all s) = Running s"
  "NumberOfThreads (notify_all s) = NumberOfThreads s"
  "Controller (notify_all s) = Controller s"
  "length (Threads (notify_all s)) = length (Threads s)"
  by (simp_all add: notify_all_def)

lemma notify_all_nth [simp]:
  "p < length (Threads s) \<Longrightarrow> Threads (notify_all s) ! p = wake (Threads s ! p)"
  by (simp add: notify_all_def)

lemma in_flight_not_joinable:
  assumes "list_all (\<lambda>t. \<not> joinable t) (drop k (Threads s))"
  shows "in_flight (s\<lparr>Threads := take k (Threads s) @ replicate m NotAThread\<rparr>) = in_flight s"
proof -
  have "\<forall>p. k \<le> p \<and> p < length (Threads s) \<longrightarrow> held (Threads s ! p) = []"
  proof (intro allI impI)
    fix p assume p: "k \<le> p \<and> p < length (Threads s)"
    then have "Threads s ! p = drop k (Threads s) ! (p - k)" "p - k < length (drop k (Threads s))"
      by auto
    with assms have "\<not> joinable (Threads s ! p)" by (simp add: list_all_length)
    then show "held (Threads s ! p) = []" by (simp add: joinable_def held_def)
  qed
  from concat_held_take [OF this] show ?thesis by (simp add: in_flight_def held_def)
qed

lemma in_flight_none:
  assumes "list_all (\<lambda>t. \<not> joinable t) (Threads s)"
  shows "in_flight s = []"
  using assms by (auto simp: in_flight_def list_all_iff joinable_def held_def)

lemma Sync_conserves:
  assumes "Sync executed k (sch, w, s) = Inr (sch', w', s')"
  shows "mset w' + mset (in_flight s') + mset (InvokerQueue s')
           = mset w + mset (in_flight s) + mset (InvokerQueue s)
       \<and> (\<exists>j. InvokerQueue s' = drop j (InvokerQueue s))"
proof -
  from Sync_Inr [OF assms] obtain xs s1 where
    r: "run_events executed xs (w, s) = Inr (w', s1)"
    and j: "\<forall>p. nat k \<le> p \<and> p < length (Threads s) \<longrightarrow> (\<exists>i. Threads s1 ! p = Finished i)"
    and s': "s' = s1\<lparr>Threads := take (nat k) (Threads s1)
                         @ map (\<lambda>t. NotAThread) (drop (nat k) (Threads s1))\<rparr>"
    by blast
  note f = run_events_frame [OF r]
  from j f have "\<forall>p. nat k \<le> p \<and> p < length (Threads s1) \<longrightarrow> (\<exists>i. Threads s1 ! p = Finished i)"
    by simp
  from in_flight_joined(1) [OF this] have "in_flight s' = in_flight s1" by (simp add: s')
  moreover have "InvokerQueue s' = InvokerQueue s1" by (simp add: s')
  ultimately show ?thesis using run_events_conserves [OF r] f by simp
qed

lemma Stop_body_conserves:
  assumes "Stop_body executed (sch, w, s) = Inr (sch', w', s')"
  shows "mset w' + mset (in_flight s') + mset (InvokerQueue s')
           = mset w + mset (in_flight s) + mset (InvokerQueue s)
       \<and> (\<exists>j. InvokerQueue s' = drop j (InvokerQueue s))"
proof (cases "Running s")
  case False
  with assms have "w' = w" "s' = s" by (simp_all add: Stop_body_def)
  moreover have "InvokerQueue s = drop 0 (InvokerQueue s)" by simp
  ultimately show ?thesis by blast
next
  case True
  with assms have "Sync executed 0 (sch, w, notify_all (s\<lparr>Running := False\<rparr>)) = Inr (sch', w', s')"
    by (simp add: Stop_body_def Sync_default_startId_def)
  from Sync_conserves [OF this] show ?thesis by simp
qed

lemma drop_self: "xs' = xs \<Longrightarrow> \<exists>j. xs' = drop j xs"
  by (rule exI [of _ 0]) simp

lemma Start_body_conserves:
  assumes "Start_body (sch, w, s) = Inr (sch', w', s')"
  shows "mset w' + mset (in_flight s') + mset (InvokerQueue s')
           = mset w + mset (in_flight s) + mset (InvokerQueue s)
       \<and> (\<exists>j. InvokerQueue s' = drop j (InvokerQueue s))"
proof (cases "Running s")
  case True
  with assms have "w' = w" "s' = s" by (simp_all add: Start_body_def)
  moreover have "InvokerQueue s = drop 0 (InvokerQueue s)" by simp
  ultimately show ?thesis by blast
next
  case False
  from Start_body_Inr [OF False assms]
  have w: "w' = w" and n: "list_all (\<lambda>t. \<not> joinable t) (Threads s)"
    and s': "s' = s\<lparr>Running := True,
                Threads := map (\<lambda>p. ThreadWorker (int p)) [0 ..< length (Threads s)]\<rparr>"
    by simp_all
  have "in_flight s' = []" by (simp add: s' in_flight_def held_def)
  moreover have q: "InvokerQueue s' = InvokerQueue s" by (simp add: s')
  ultimately show ?thesis using in_flight_none [OF n] w drop_self [OF q] by simp
qed

lemma SetNumberOfThreads_body_conserves:
  assumes b: "SetNumberOfThreads_body executed n (sch, w, s) = Inr (sch', w', s')"
  shows "mset w' + mset (in_flight s') + mset (InvokerQueue s')
           = mset w + mset (in_flight s) + mset (InvokerQueue s)
       \<and> (\<exists>j. InvokerQueue s' = drop j (InvokerQueue s))"
proof -
  consider (same) "int (length (Threads s)) = n"
    | (stopped) "int (length (Threads s)) \<noteq> n" "\<not> Running s"
    | (grow) "int (length (Threads s)) < n" "Running s"
    | (shrink) "n < int (length (Threads s))" "Running s"
    by (cases "Running s"; cases "int (length (Threads s))" n rule: linorder_cases) auto
  then show ?thesis
  proof cases
    case same
    with b have "w' = w" "s' = s" by (simp_all add: SetNumberOfThreads_body_same)
    moreover have "InvokerQueue s = drop 0 (InvokerQueue s)" by simp
    ultimately show ?thesis by blast
  next
    case stopped
    from SetNumberOfThreads_body_stopped [OF stopped(2,1) b]
    have w: "w' = w" and j: "list_all (\<lambda>t. \<not> joinable t) (drop (nat n) (Threads s))"
      and s': "s' = s\<lparr>NumberOfThreads := n,
                Threads := take (nat n) (Threads s)
                  @ replicate (nat n - length (Threads s)) NotAThread\<rparr>"
      by simp_all
    from in_flight_not_joinable [OF j, of "nat n - length (Threads s)"]
    have "in_flight s' = in_flight s" by (simp add: s' in_flight_def)
    moreover have q: "InvokerQueue s' = InvokerQueue s" by (simp add: s')
    ultimately show ?thesis using w drop_self [OF q] by simp
  next
    case grow
    from SetNumberOfThreads_body_grow [OF grow(2,1), of executed sch w] b
    have w: "w' = w" and s': "s' = s\<lparr>NumberOfThreads := n,
        Threads := Threads s @ map (\<lambda>p. ThreadWorker (int p - 1)) [length (Threads s) ..< nat n]\<rparr>"
      by simp_all
    have "in_flight s' = in_flight s" by (simp add: s' in_flight_def held_def)
    moreover have q: "InvokerQueue s' = InvokerQueue s" by (simp add: s')
    ultimately show ?thesis using w drop_self [OF q] by simp
  next
    case shrink
    from SetNumberOfThreads_body_shrink_Inr [OF shrink(2,1) b] obtain xs s1 where
      r: "run_events executed xs (w, notify_all (s\<lparr>NumberOfThreads := n\<rparr>)) = Inr (w', s1)"
      and j: "\<forall>p. nat n \<le> p \<and> p < length (Threads s) \<longrightarrow> (\<exists>i. Threads s1 ! p = Finished i)"
      and s': "s' = s1\<lparr>Threads := take (nat n) (Threads s1)\<rparr>"
      by blast
    note f = run_events_frame [OF r]
    from j f have "\<forall>p. nat n \<le> p \<and> p < length (Threads s1) \<longrightarrow> (\<exists>i. Threads s1 ! p = Finished i)"
      by simp
    from in_flight_joined(2) [OF this] have "in_flight s' = in_flight s1" by (simp add: s')
    moreover have "InvokerQueue s' = InvokerQueue s1" by (simp add: s')
    ultimately show ?thesis using run_events_conserves [OF r] f by simp
  qed
qed

lemma invoke_conserves:
  assumes "invoke executed f (sch, w, s) = Inr (sch', w', s')"
  shows "mset w' + mset (in_flight s') + mset (InvokerQueue s')
           = mset w + mset (in_flight s) + mset (InvokerQueue s)
       \<and> (\<exists>j. InvokerQueue s' = drop j (InvokerQueue s))"
  using assms
  by (cases f)
    (simp_all add: SetNumberOfThreads_body_conserves Stop_body_conserves Start_body_conserves)


section \<open>A worker on its way out leaves its loop\<close>

lemma event_step_load:
  assumes "event_step call e (w, s) = Inr (w', s')"
  shows "on_duty i s' = on_duty i s \<and> load i s' \<le> load i s"
  using event_step_frame [OF assms] event_step_queue [OF assms]
  by (auto simp: on_duty_def load_def)

lemma steps_left_step:
  assumes e: "event_step call e (w, s) = Inr (w', s')"
    and p: "p < length (Threads s)" and l: "leaving s (Threads s ! p)"
  shows "leaving s' (Threads s' ! p)
       \<and> steps_left s' (Threads s' ! p)
           \<le> steps_left s (Threads s ! p) - (if e = Runs p then 1 else 0)"
proof -
  note ld = event_step_load [OF e]
  consider (other) "e \<noteq> Runs p" "e \<noteq> Wakes p" | (wakes) "e = Wakes p" | (runs) "e = Runs p"
    by blast
  then show ?thesis
  proof cases
    case other
    from event_step_other [OF e other] have t: "Threads s' ! p = Threads s ! p" .
    from l ld show ?thesis unfolding t using other(1)
      by (cases "Threads s ! p") (auto simp: leaving_def steps_left_def)
  next
    case wakes
    from l have "wake (Threads s ! p) = Threads s ! p"
      by (cases "Threads s ! p") (auto simp: leaving_def wake_def)
    with e wakes p have "s' = s" by (simp add: event_step_def)
    with l wakes show ?thesis by simp
  next
    case runs
    show ?thesis
    proof (cases "Threads s ! p")
      case NotAThread
      with l show ?thesis by (simp add: leaving_def)
    next
      case (InWait i)
      with l show ?thesis by (simp add: leaving_def)
    next
      case (Finished i)
      with e runs p have "s' = s" by (simp add: event_step_def worker_step_def)
      with Finished show ?thesis by (simp add: leaving_def steps_left_def)
    next
      case (Invoking i x)
      with e runs p have s': "s' = s\<lparr>Threads := (Threads s)[p := ThreadWorker i]\<rparr>"
        by (auto simp: event_step_def worker_step_def split: sum.splits)
      with l Invoking p show ?thesis
        by (simp add: leaving_def steps_left_def on_duty_def load_def)
    next
      case (ThreadWorker i)
      with l have nd: "\<not> on_duty i s" by (simp add: leaving_def)
      then have nh: "\<not> OnHold i s" by (auto simp: on_duty_def OnHold_def)
      show ?thesis
      proof (cases "Continue i s")
        case False
        with e runs p ThreadWorker nh
        have s': "s' = s\<lparr>Threads := (Threads s)[p := Finished i]\<rparr>"
          by (simp add: event_step_def worker_step_def)
        with p ThreadWorker show ?thesis by (simp add: leaving_def steps_left_def)
      next
        case True
        with e runs p ThreadWorker nh
        have s': "s' = s\<lparr>InvokerQueue := tl (InvokerQueue s),
              Empty := (tl (InvokerQueue s) = []),
              Threads := (Threads s)[p := Invoking i (hd (InvokerQueue s))]\<rparr>"
          by (simp add: event_step_def worker_step_def Let_def)
        from True have "InvokerQueue s \<noteq> []" "i < NumberOfThreads s" "Running s"
          by (simp_all add: Continue_def)
        with s' p ThreadWorker nd show ?thesis
          by (cases "InvokerQueue s") (simp_all add: leaving_def steps_left_def on_duty_def load_def)
      qed
    qed
  qed
qed

lemma run_events_steps_left:
  assumes "run_events call xs (w, s) = Inr (w', s')"
    and "p < length (Threads s)" and "leaving s (Threads s ! p)"
  shows "leaving s' (Threads s' ! p)
       \<and> steps_left s' (Threads s' ! p) \<le> steps_left s (Threads s ! p) - count_list xs (Runs p)"
  using assms
proof (induction xs arbitrary: w s)
  case Nil
  then show ?case by simp
next
  case (Cons e xs)
  from Cons.prems(1) obtain w1 s1 where e: "event_step call e (w, s) = Inr (w1, s1)"
    and r: "run_events call xs (w1, s1) = Inr (w', s')"
    by (auto split: sum.splits)
  note f = event_step_frame [OF e]
  note st = steps_left_step [OF e Cons.prems(2,3)]
  from Cons.IH [OF r] st f Cons.prems(2)
  have "leaving s' (Threads s' ! p)"
    and "steps_left s' (Threads s' ! p) \<le> steps_left s1 (Threads s1 ! p) - count_list xs (Runs p)"
    by simp_all
  with st show ?case by (auto split: if_splits)
qed

lemma join_returns:
  assumes "\<forall>x w. \<exists>w'. call x w = Inr w'"
    and "p < length (Threads s)" and "leaving s (Threads s ! p)"
    and "steps_left s (Threads s ! p) \<le> count_list sch (Runs p)"
  shows "\<exists>r. join call p sch (w, s) = Inr r"
  using assms(2-)
proof (induction sch arbitrary: w s)
  case Nil
  then show ?case by (cases "Threads s ! p") (simp_all add: leaving_def steps_left_def)
next
  case (Cons e sch)
  show ?case
  proof (cases "\<exists>i. Threads s ! p = Finished i")
    case True
    then show ?thesis by auto
  next
    case False
    from event_step_total [OF assms(1), of e "(w, s)"] obtain w1 s1
      where e: "event_step call e (w, s) = Inr (w1, s1)" by fastforce
    note f = event_step_frame [OF e]
    note st = steps_left_step [OF e Cons.prems(1,2)]
    from False Cons.prems(2) have "0 < steps_left s (Threads s ! p)"
      by (cases "Threads s ! p") (simp_all add: leaving_def steps_left_def)
    with st Cons.prems(3) have "steps_left s1 (Threads s1 ! p) \<le> count_list sch (Runs p)"
      by (auto split: if_splits)
    with Cons.IH [of s1 w1] st f Cons.prems(1) obtain r where "join call p sch (w1, s1) = Inr r"
      by auto
    with e False Cons.prems(2) show ?thesis
      by (cases "Threads s ! p"; cases r) (auto simp: leaving_def)
  qed
qed

lemma for_each_join_returns:
  assumes "\<forall>x w. \<exists>w'. call x w = Inr w'"
    and "\<forall>p\<in>set ps. p < length (Threads s) \<and> leaving s (Threads s ! p)
           \<and> steps_left s (Threads s ! p) \<le> count_list sch (Runs p)"
  shows "\<exists>r. for_each_join call ps (sch, w, s) = Inr r"
  using assms(2)
proof (induction ps arbitrary: sch w s)
  case Nil
  show ?case by simp
next
  case (Cons p ps)
  from Cons.prems have p: "p < length (Threads s)" "leaving s (Threads s ! p)"
    "steps_left s (Threads s ! p) \<le> count_list sch (Runs p)" by simp_all
  from join_returns [OF assms(1) p, of w] obtain sch1 w1 s1
    where j: "join call p sch (w, s) = Inr (sch1, w1, s1)" by (metis prod_cases3)
  from join_Inr [OF j] obtain xs where xs: "sch = xs @ sch1"
    "run_events call xs (w, s) = Inr (w1, s1)" by auto
  note f = run_events_frame [OF xs(2)]
  have "\<forall>q\<in>set ps. q < length (Threads s1) \<and> leaving s1 (Threads s1 ! q)
           \<and> steps_left s1 (Threads s1 ! q) \<le> count_list sch1 (Runs q)"
  proof
    fix q assume "q \<in> set ps"
    with Cons.prems have q: "q < length (Threads s)" "leaving s (Threads s ! q)"
      "steps_left s (Threads s ! q) \<le> count_list sch (Runs q)" by simp_all
    from run_events_steps_left [OF xs(2) q(1,2)]
    have A: "leaving s1 (Threads s1 ! q)"
      and B: "steps_left s1 (Threads s1 ! q)
                \<le> steps_left s (Threads s ! q) - count_list xs (Runs q)"
      by simp_all
    from q(3) xs(1)
    have "steps_left s (Threads s ! q) \<le> count_list xs (Runs q) + count_list sch1 (Runs q)"
      by simp
    with B have "steps_left s1 (Threads s1 ! q) \<le> count_list sch1 (Runs q)" by linarith
    with A f q(1)
    show "q < length (Threads s1) \<and> leaving s1 (Threads s1 ! q)
           \<and> steps_left s1 (Threads s1 ! q) \<le> count_list sch1 (Runs q)"
      by simp
  qed
  from Cons.IH [OF this, of w1] j show ?case by simp
qed

lemma Sync_returns:
  assumes "\<forall>x w. \<exists>w'. call x w = Inr w'"
    and "\<forall>p<length (Threads s). leaving s (Threads s ! p)
           \<and> steps_left s (Threads s ! p) \<le> count_list sch (Runs p)"
  shows "\<exists>r. Sync call 0 (sch, w, s) = Inr r"
proof -
  from assms(2) have "\<forall>p\<in>set [0 ..< length (Threads s)]. p < length (Threads s)
           \<and> leaving s (Threads s ! p)
           \<and> steps_left s (Threads s ! p) \<le> count_list sch (Runs p)"
    by simp
  from for_each_join_returns [OF assms(1) this, of w] obtain r
    where "for_each_join call [0 ..< length (Threads s)] (sch, w, s) = Inr r" by blast
  then show ?thesis by (cases r) (simp add: Sync_def)
qed


section \<open>Destruction\<close>

lemma consistent_wake:
  assumes "consistent s" and "Running s" and "p < length (Threads s)"
  shows "\<exists>i. i < NumberOfThreads s
           \<and> (wake (Threads s ! p) = ThreadWorker i \<or> (\<exists>x. wake (Threads s ! p) = Invoking i x))"
proof -
  from assms have a: "at_work p (Threads s ! p)" and n: "int (length (Threads s)) = NumberOfThreads s"
    by (simp_all add: consistent_iff)
  from a show ?thesis
  proof (cases rule: at_work_cases)
    case (head i) with assms(3) n show ?thesis by (simp add: wake_def)
  next
    case (wait i) with assms(3) n show ?thesis by (simp add: wake_def)
  next
    case (invoking i x) with assms(3) n show ?thesis by (simp add: wake_def)
  qed
qed

lemma destroying_leaving:
  assumes "consistent s" and "Running s" and "p < length (Threads s)"
  shows "leaving (notify_all (s\<lparr>Destroying := True\<rparr>))
           (Threads (notify_all (s\<lparr>Destroying := True\<rparr>)) ! p)
       \<and> steps_left (notify_all (s\<lparr>Destroying := True\<rparr>))
           (Threads (notify_all (s\<lparr>Destroying := True\<rparr>)) ! p)
           \<le> 2 * length (InvokerQueue s) + 2"
  using consistent_wake [OF assms] assms(3)
  by (auto simp: leaving_def steps_left_def on_duty_def load_def)

lemma stopping_leaving:
  assumes "consistent s" and "Running s" and "p < length (Threads s)"
  shows "leaving (notify_all (s\<lparr>Running := False\<rparr>))
           (Threads (notify_all (s\<lparr>Running := False\<rparr>)) ! p)
       \<and> steps_left (notify_all (s\<lparr>Running := False\<rparr>))
           (Threads (notify_all (s\<lparr>Running := False\<rparr>)) ! p) \<le> 2"
  using consistent_wake [OF assms] assms(3)
  by (auto simp: leaving_def steps_left_def on_duty_def load_def)

lemma destructor_body_returns:
  assumes "consistent s" and "Running s"
    and "\<forall>p<length (Threads s). 2 * length (InvokerQueue s) + 2 \<le> count_list sch (Runs p)"
  shows "\<exists>r. destructor_body executed (sch, w, s) = Inr r"
proof -
  let ?s = "notify_all (s\<lparr>Destroying := True\<rparr>)"
  have "\<forall>p<length (Threads ?s). leaving ?s (Threads ?s ! p)
           \<and> steps_left ?s (Threads ?s ! p) \<le> count_list sch (Runs p)"
  proof (intro allI impI)
    fix p assume "p < length (Threads ?s)"
    then have p: "p < length (Threads s)" by simp
    from destroying_leaving [OF assms(1,2) p] assms(3) p
    show "leaving ?s (Threads ?s ! p) \<and> steps_left ?s (Threads ?s ! p) \<le> count_list sch (Runs p)"
      by (meson le_trans)
  qed
  from Sync_returns [OF executed_total this, of w] assms(2) show ?thesis
    by (simp add: destructor_body_def Sync_default_startId_def)
qed

lemma Stop_body_returns:
  assumes "consistent s" and "Running s"
    and "\<forall>p<length (Threads s). 2 \<le> count_list sch (Runs p)"
  shows "\<exists>r. Stop_body executed (sch, w, s) = Inr r"
proof -
  let ?s = "notify_all (s\<lparr>Running := False\<rparr>)"
  have "\<forall>p<length (Threads ?s). leaving ?s (Threads ?s ! p)
           \<and> steps_left ?s (Threads ?s ! p) \<le> count_list sch (Runs p)"
  proof (intro allI impI)
    fix p assume "p < length (Threads ?s)"
    then have p: "p < length (Threads s)" by simp
    from stopping_leaving [OF assms(1,2) p] assms(3) p
    show "leaving ?s (Threads ?s ! p) \<and> steps_left ?s (Threads ?s ! p) \<le> count_list sch (Runs p)"
      by (meson le_trans)
  qed
  from Sync_returns [OF executed_total this, of w] assms(2) show ?thesis
    by (simp add: Stop_body_def Sync_default_startId_def)
qed

text \<open>
  A worker in service of a running queue leaves its loop only when it finds the queue of
  invokers empty.
\<close>

lemma event_step_drained:
  assumes e: "event_step call e (w, s) = Inr (w', s')" and "Running s"
    and "\<forall>p<length (Threads s). in_service (NumberOfThreads s) (Threads s ! p)
           \<or> ((\<exists>i. Threads s ! p = Finished i) \<and> InvokerQueue s = [])"
  shows "\<forall>p<length (Threads s'). in_service (NumberOfThreads s') (Threads s' ! p)
           \<or> ((\<exists>i. Threads s' ! p = Finished i) \<and> InvokerQueue s' = [])"
  using e
proof (cases rule: event_step_cases)
  case idle
  with assms(3) show ?thesis by simp
next
  case (hold q i)
  with assms(3) show ?thesis by (auto simp: nth_list_update in_service_def)
next
  case (leave q i)
  from assms(3) leave(2,3) have "i < NumberOfThreads s" by (auto simp: in_service_def)
  with leave(4,5) assms(2) have "InvokerQueue s = []" by (auto simp: OnHold_def Continue_def)
  with assms(3) leave show ?thesis by (auto simp: nth_list_update)
next
  case (pop q i)
  then have ne: "InvokerQueue s \<noteq> []" by (simp add: Continue_def)
  from assms(3) pop(2,3) have "i < NumberOfThreads s" by (auto simp: in_service_def)
  with assms(3) pop ne show ?thesis by (auto simp: nth_list_update in_service_def)
next
  case (call q i x)
  from assms(3) call(2,3) have "i < NumberOfThreads s" by (auto simp: in_service_def)
  with assms(3) call show ?thesis by (auto simp: nth_list_update in_service_def)
next
  case (woken q i)
  from assms(3) woken(2,3) have "i < NumberOfThreads s" by (auto simp: in_service_def)
  with assms(3) woken show ?thesis by (auto simp: nth_list_update in_service_def)
qed

lemma run_events_drained:
  assumes "run_events call xs (w, s) = Inr (w', s')" and "Running s"
    and "\<forall>p<length (Threads s). in_service (NumberOfThreads s) (Threads s ! p)
           \<or> ((\<exists>i. Threads s ! p = Finished i) \<and> InvokerQueue s = [])"
  shows "\<forall>p<length (Threads s'). in_service (NumberOfThreads s') (Threads s' ! p)
           \<or> ((\<exists>i. Threads s' ! p = Finished i) \<and> InvokerQueue s' = [])"
  using assms
proof (induction xs arbitrary: w s)
  case Nil
  then show ?case by simp
next
  case (Cons e xs)
  from Cons.prems(1) obtain w1 s1 where e: "event_step call e (w, s) = Inr (w1, s1)"
    and r: "run_events call xs (w1, s1) = Inr (w', s')"
    by (auto split: sum.splits)
  note f = event_step_frame [OF e]
  from Cons.IH [OF r _ event_step_drained [OF e Cons.prems(2,3)]] f Cons.prems(2)
  show ?case by simp
qed


lemma destructor_body_stopped:
  "\<not> Running s \<Longrightarrow> destructor_body call (sch, w, s) = Inr (sch, w, s)"
  by (simp add: destructor_body_def)

lemma destructor_body_conserves:
  assumes "destructor_body executed (sch, w, s) = Inr (sch', w', s')"
  shows "mset w' + mset (in_flight s') + mset (InvokerQueue s')
           = mset w + mset (in_flight s) + mset (InvokerQueue s)
       \<and> (\<exists>j. InvokerQueue s' = drop j (InvokerQueue s))"
proof (cases "Running s")
  case False
  with assms have "w' = w" "s' = s" by (simp_all add: destructor_body_def)
  with drop_self [of "InvokerQueue s'" "InvokerQueue s"] show ?thesis by simp
next
  case True
  with assms
  have "Sync executed 0 (sch, w, notify_all (s\<lparr>Destroying := True\<rparr>)) = Inr (sch', w', s')"
    by (simp add: destructor_body_def Sync_default_startId_def)
  from Sync_conserves [OF this] show ?thesis by simp
qed

lemma destructor_body_running:
  assumes c: "consistent s" and r: "Running s"
    and d: "destructor_body executed (sch, w, s) = Inr (sch', w', s')"
  shows "Destroying s' \<and> Running s' \<and> Controller s' = Controller s
       \<and> NumberOfThreads s' = NumberOfThreads s
       \<and> Threads s' = replicate (length (Threads s)) NotAThread
       \<and> (Threads s \<noteq> [] \<longrightarrow> InvokerQueue s' = [])"
proof -
  let ?s = "notify_all (s\<lparr>Destroying := True\<rparr>)"
  from destructor_body_Inr [OF r d] obtain xs s1 where
    run: "run_events executed xs (w, ?s) = Inr (w', s1)"
    and fin: "\<forall>p<length (Threads s). \<exists>i. Threads s1 ! p = Finished i"
    and s': "s' = s1\<lparr>Threads := map (\<lambda>t. NotAThread) (Threads s1)\<rparr>"
    by blast
  note f = run_events_frame [OF run]
  have "\<forall>p<length (Threads ?s). in_service (NumberOfThreads ?s) (Threads ?s ! p)
           \<or> ((\<exists>i. Threads ?s ! p = Finished i) \<and> InvokerQueue ?s = [])"
  proof (intro allI impI)
    fix p assume "p < length (Threads ?s)"
    then have p: "p < length (Threads s)" by simp
    from consistent_wake [OF c r p] p
    show "in_service (NumberOfThreads ?s) (Threads ?s ! p)
           \<or> ((\<exists>i. Threads ?s ! p = Finished i) \<and> InvokerQueue ?s = [])"
      by (auto simp: in_service_def)
  qed
  from run_events_drained [OF run _ this] r f
  have dr: "\<forall>p<length (Threads s). in_service (NumberOfThreads s1) (Threads s1 ! p)
           \<or> ((\<exists>i. Threads s1 ! p = Finished i) \<and> InvokerQueue s1 = [])"
    by simp
  have "InvokerQueue s1 = []" if "Threads s \<noteq> []"
  proof -
    from that have 0: "0 < length (Threads s)" by simp
    from fin 0 obtain i where "Threads s1 ! 0 = Finished i" by blast
    with dr 0 show ?thesis by (auto simp: in_service_def)
  qed
  with f r show ?thesis by (simp add: s' map_replicate_const)
qed

text \<open>What the calls of the controller's workers do to the queue that owns the controller.\<close>

lemma event_step_world:
  assumes "event_step call e (X, c) = Inr (X', c')" and "P X"
    and "\<forall>f Y Y'. P Y \<and> call f Y = Inr Y' \<longrightarrow> P Y'"
  shows "P X'"
  using assms(1)
proof (cases rule: event_step_cases)
  case (call p i x)
  with assms(2,3) show ?thesis by blast
qed (use assms(2) in simp_all)

lemma run_events_world:
  assumes "run_events call xs (X, c) = Inr (X', c')" and "P X"
    and "\<forall>f Y Y'. P Y \<and> call f Y = Inr Y' \<longrightarrow> P Y'"
  shows "P X'"
  using assms(1,2)
proof (induction xs arbitrary: X c)
  case Nil
  then show ?case by simp
next
  case (Cons e xs)
  from Cons.prems(1) obtain X1 c1 where e: "event_step call e (X, c) = Inr (X1, c1)"
    and r: "run_events call xs (X1, c1) = Inr (X', c')"
    by (auto split: sum.splits)
  from event_step_world [OF e Cons.prems(2) assms(3)] have "P X1" .
  from Cons.IH [OF r this] show ?case .
qed

lemma destructor_body_world:
  assumes "destructor_body call (sch_c, X, c) = Inr (sch_c', X', c')" and "P X"
    and "\<forall>f Y Y'. P Y \<and> call f Y = Inr Y' \<longrightarrow> P Y'"
  shows "P X'"
proof (cases "Running c")
  case False
  with assms(1,2) show ?thesis by (simp add: destructor_body_def)
next
  case True
  from destructor_body_Inr [OF True assms(1)] obtain xs s1 where
    "run_events call xs (X, notify_all (c\<lparr>Destroying := True\<rparr>)) = Inr (X', s1)" by blast
  from run_events_world [OF this assms(2,3)] show ?thesis .
qed

lemma invoke_reachable:
  assumes "reachable executed (snd X)
         \<and> mset (fst (snd X)) + mset (in_flight (snd (snd X))) + mset (InvokerQueue (snd (snd X))) = T
         \<and> (\<exists>k. InvokerQueue (snd (snd X)) = drop k Q)"
    and "invoke executed f X = Inr X'"
  shows "reachable executed (snd X')
         \<and> mset (fst (snd X')) + mset (in_flight (snd (snd X'))) + mset (InvokerQueue (snd (snd X'))) = T
         \<and> (\<exists>k. InvokerQueue (snd (snd X')) = drop k Q)"
proof -
  obtain sch w s where X: "X = (sch, w, s)" by (cases X)
  obtain sch' w' s' where X': "X' = (sch', w', s')" by (cases X')
  from assms(2) have i: "invoke executed f (sch, w, s) = Inr (sch', w', s')" by (simp add: X X')
  from assms(1) have r: "reachable executed (w, s)" by (simp add: X)
  from reachable.invoked [OF r i] have "reachable executed (w', s')" .
  moreover from invoke_conserves [OF i] assms(1)
  have "mset w' + mset (in_flight s') + mset (InvokerQueue s') = T" by (simp add: X)
  moreover from invoke_conserves [OF i] assms(1) obtain j k where
    "InvokerQueue s' = drop j (InvokerQueue s)" "InvokerQueue s = drop k Q" by (auto simp: X)
  then have "InvokerQueue s' = drop (j + k) Q" by simp
  ultimately show ?thesis unfolding X' by auto
qed


lemma destructor_phases:
  assumes r: "reachable executed (w, this)"
    and c: "case Controller this of
              None \<Rightarrow> (sch1, w1, this1) = (sch, w, this)
            | Some c \<Rightarrow> \<exists>sch_c' c'. destructor_body (invoke executed) (sch_c, (sch, w, this), c)
                                   = Inr (sch_c', (sch1, w1, this1), c')"
  shows "destructor executed sch_c (sch, w, this)
           = destructor_body executed (sch1, w1, this1\<lparr>Controller := None\<rparr>)"
    and "reachable executed (w1, this1)"
    and "mset w1 + mset (in_flight this1) + mset (InvokerQueue this1)
           = mset w + mset (in_flight this) + mset (InvokerQueue this)"
    and "\<exists>k. InvokerQueue this1 = drop k (InvokerQueue this)"
proof -
  let ?P = "\<lambda>X :: event list \<times> 'a list \<times> ('a, (command, 'b) vtkThreadedCallbackQueue) vtkThreadedCallbackQueue.
      reachable executed (snd X)
      \<and> mset (fst (snd X)) + mset (in_flight (snd (snd X))) + mset (InvokerQueue (snd (snd X)))
          = mset w + mset (in_flight this) + mset (InvokerQueue this)
      \<and> (\<exists>k. InvokerQueue (snd (snd X)) = drop k (InvokerQueue this))"
  have P0: "?P (sch, w, this)" using r drop_self [of "InvokerQueue this" "InvokerQueue this"] by simp
  have inv: "\<forall>f Y Y'. ?P Y \<and> invoke executed f Y = Inr Y' \<longrightarrow> ?P Y'"
    by (intro allI impI) (erule conjE, rule invoke_reachable)
  have "destructor executed sch_c (sch, w, this)
           = destructor_body executed (sch1, w1, this1\<lparr>Controller := None\<rparr>)
        \<and> ?P (sch1, w1, this1)"
  proof (cases "Controller this")
    case None
    with c have e: "sch1 = sch" "w1 = w" "this1 = this" by simp_all
    have eq: "this\<lparr>Controller := None\<rparr> = this" unfolding None [symmetric] by simp
    from None P0 show ?thesis unfolding e eq by (simp add: destructor_def)
  next
    case (Some c0)
    with c obtain sch_c' c' where
      d: "destructor_body (invoke executed) (sch_c, (sch, w, this), c0)
            = Inr (sch_c', (sch1, w1, this1), c')" by auto
    from destructor_body_world [OF d, of ?P, OF P0 inv] have "?P (sch1, w1, this1)" .
    with Some d show ?thesis by (simp add: destructor_def)
  qed
  then show "destructor executed sch_c (sch, w, this)
           = destructor_body executed (sch1, w1, this1\<lparr>Controller := None\<rparr>)"
    and "reachable executed (w1, this1)"
    and "mset w1 + mset (in_flight this1) + mset (InvokerQueue this1)
           = mset w + mset (in_flight this) + mset (InvokerQueue this)"
    and "\<exists>k. InvokerQueue this1 = drop k (InvokerQueue this)"
    by simp_all
qed

lemma destructor_Inr:
  assumes "destructor executed sch_c (sch, w, this) = Inr r"
  shows "\<exists>sch1 w1 this1. case Controller this of
              None \<Rightarrow> (sch1, w1, this1) = (sch, w, this)
            | Some c \<Rightarrow> \<exists>sch_c' c'. destructor_body (invoke executed) (sch_c, (sch, w, this), c)
                                   = Inr (sch_c', (sch1, w1, this1), c')"
proof (cases "Controller this")
  case None
  then show ?thesis by simp
next
  case (Some c)
  with assms obtain sch_c' sch1 w1 this1 c' where
    "destructor_body (invoke executed) (sch_c, (sch, w, this), c)
       = Inr (sch_c', (sch1, w1, this1), c')"
    by (auto simp: destructor_def split: sum.splits)
  with Some show ?thesis by auto
qed

lemma destructor_body_result:
  assumes c: "consistent s"
    and d: "destructor_body executed (sch, w, s) = Inr (sch', w', s')"
  shows "Controller s' = Controller s"
    and "list_all (\<lambda>t. t = NotAThread) (Threads s')"
    and "mset w' + mset (InvokerQueue s') = mset w + mset (in_flight s) + mset (InvokerQueue s)"
    and "\<exists>k. InvokerQueue s' = drop k (InvokerQueue s)"
    and "Running s' \<longrightarrow> Destroying s' \<and> (Threads s' \<noteq> [] \<longrightarrow> InvokerQueue s' = [])"
proof -
  have "Controller s' = Controller s
       \<and> list_all (\<lambda>t. t = NotAThread) (Threads s')
       \<and> mset w' + mset (InvokerQueue s') = mset w + mset (in_flight s) + mset (InvokerQueue s)
       \<and> (\<exists>k. InvokerQueue s' = drop k (InvokerQueue s))
       \<and> (Running s' \<longrightarrow> Destroying s' \<and> (Threads s' \<noteq> [] \<longrightarrow> InvokerQueue s' = []))"
  proof (cases "Running s")
  case False
  with d have e: "w' = w" "s' = s" by (simp_all add: destructor_body_def)
  from c False have n: "list_all (\<lambda>t. \<not> joinable t) (Threads s)" by (simp add: consistent_def)
  then have "list_all (\<lambda>t. t = NotAThread) (Threads s)" by (simp add: joinable_def)
  with in_flight_none [OF n] False drop_self [of "InvokerQueue s" "InvokerQueue s"]
  show ?thesis by (simp add: e)
next
  case True
  note R = destructor_body_running [OF c True d]
  then have t: "Threads s' = replicate (length (Threads s)) NotAThread" by simp
  then have "in_flight s' = []" by (simp add: in_flight_def held_def)
  with destructor_body_conserves [OF d] R show ?thesis
    by (auto simp: t list_all_iff)
  qed
  then show "Controller s' = Controller s"
    and "list_all (\<lambda>t. t = NotAThread) (Threads s')"
    and "mset w' + mset (InvokerQueue s') = mset w + mset (in_flight s) + mset (InvokerQueue s)"
    and "\<exists>k. InvokerQueue s' = drop k (InvokerQueue s)"
    and "Running s' \<longrightarrow> Destroying s' \<and> (Threads s' \<noteq> [] \<longrightarrow> InvokerQueue s' = [])"
    by simp_all
qed

lemma destructor_returns:
  assumes r: "reachable executed (w, this)"
    and c: "case Controller this of
              None \<Rightarrow> (sch1, w1, this1) = (sch, w, this)
            | Some c \<Rightarrow> \<exists>sch_c' c'. destructor_body (invoke executed) (sch_c, (sch, w, this), c)
                                   = Inr (sch_c', (sch1, w1, this1), c')"
    and fair: "\<forall>p<length (Threads this1).
                 2 * length (InvokerQueue this1) + 2 \<le> count_list sch1 (Runs p)"
  shows "\<exists>r. destructor executed sch_c (sch, w, this) = Inr r"
proof -
  note ph = destructor_phases [OF r c]
  from reachable_consistent [OF ph(2)] have con: "consistent (this1\<lparr>Controller := None\<rparr>)"
    by (simp add: consistent_Controller)
  show ?thesis
  proof (cases "Running this1")
    case False
    then show ?thesis unfolding ph(1) by (simp add: destructor_body_def)
  next
    case True
    from destructor_body_returns [OF con, of sch1 w1] True fair
    show ?thesis unfolding ph(1) by simp
  qed
qed

text \<open>
  The destructor of a controller that has nothing to do: its worker, woken, finds
  \<^verbatim>\<open>Destroying\<close> set and the queue empty and leaves; no closure is called.
\<close>

lemma join_destroyed:
  assumes "Threads c = [ThreadWorker 0]" and "Destroying c" and "InvokerQueue c = []"
    and "1 \<le> count_list sch (Runs 0)"
  shows "\<exists>sch' c'. join call 0 sch (X, c) = Inr (sch', X, c')"
  using assms(4)
proof (induction sch)
  case Nil
  then show ?case by simp
next
  case (Cons e sch)
  show ?case
  proof (cases "e = Runs 0")
    case True
    with assms(1-3) have "event_step call e (X, c) = Inr (X, c\<lparr>Threads := [Finished 0]\<rparr>)"
      by (simp add: event_step_def worker_step_def OnHold_def Continue_def)
    with assms(1) show ?thesis by (simp add: join_Finished)
  next
    case False
    have "c\<lparr>Threads := [ThreadWorker 0]\<rparr> = c" unfolding assms(1) [symmetric] by simp
    with False assms(1) have e: "event_step call e (X, c) = Inr (X, c)"
      by (cases e) (auto simp: event_step_def worker_step_def wake_def)
    from False Cons.prems have "1 \<le> count_list sch (Runs 0)" by simp
    from Cons.IH [OF this] e assms(1) show ?thesis by simp
  qed
qed

lemma serving_destructor_body:
  assumes "serving c" and "1 \<le> count_list sch_c (Runs 0)"
  shows "\<exists>sch_c' c'. destructor_body call (sch_c, X, c) = Inr (sch_c', X, c')"
proof -
  let ?c = "notify_all (c\<lparr>Destroying := True\<rparr>)"
  from assms(1) have t: "Threads ?c = [ThreadWorker 0]"
    by (auto simp: serving_def notify_all_def wake_def)
  moreover from assms(1) have "Destroying ?c" "InvokerQueue ?c = []" by (simp_all add: serving_def)
  ultimately obtain sch' c' where "join call 0 sch_c (X, ?c) = Inr (sch', X, c')"
    using join_destroyed [OF _ _ _ assms(2), of ?c call X] by blast
  moreover from t have "length (Threads ?c) = 1" by simp
  ultimately show ?thesis using assms(1)
    by (simp add: destructor_body_def serving_def Sync_default_startId_def Sync_def
        del: notify_all_simps)
qed

text \<open>
  C2 (amended): the destructor first lets go of the controller, whose workers call the
  closures still in its queue on this queue, and then, if the queue is running, sets
  \<^verbatim>\<open>Destroying\<close>, wakes the workers and joins them. Whenever the destructor returns,
  every thread has been joined, and every invoker that was queued or in a worker's hands
  has either been called, once, or is still queued. If the queue is running when
  \<^verbatim>\<open>Destroying\<close> is set and has a thread, nothing is still queued: the workers have
  popped and called all the invokers that were pending. (A worker at the head of its loop
  that finds the queue of invokers not empty pops, \<^verbatim>\<open>Destroying\<close> set or not.) The
  join of the workers returns if the schedule lets every worker take two steps for each
  pending invoker and two more (and, where the controller has nothing to do, its worker
  one step). A queue without a thread keeps its invokers.
\<close>

theorem destructor_runs_what_is_left:
  assumes "reachable executed (w, this)"
  shows "(destructor executed sch_c (sch, w, this) = Inr (sch', w', this') \<longrightarrow>
            Controller this' = None
            \<and> list_all (\<lambda>t. t = NotAThread) (Threads this')
            \<and> mset w' + mset (InvokerQueue this')
                = mset w + mset (in_flight this) + mset (InvokerQueue this)
            \<and> (\<exists>k. InvokerQueue this' = drop k (InvokerQueue this))
            \<and> (Running this' \<longrightarrow>
                 Destroying this'
                 \<and> (Threads this' \<noteq> [] \<longrightarrow>
                      InvokerQueue this' = []
                      \<and> mset w' = mset w + mset (in_flight this) + mset (InvokerQueue this))))
       \<and> ((case Controller this of
              None \<Rightarrow> (sch1, w1, this1) = (sch, w, this)
            | Some c \<Rightarrow> \<exists>sch_c' c'. destructor_body (invoke executed) (sch_c, (sch, w, this), c)
                                   = Inr (sch_c', (sch1, w1, this1), c'))
           \<and> (\<forall>p<length (Threads this1).
                 2 * length (InvokerQueue this1) + 2 \<le> count_list sch1 (Runs p))
           \<longrightarrow> (\<exists>r. destructor executed sch_c (sch, w, this) = Inr r))
       \<and> (Running this \<and> Controller this = None \<and> Threads this = [] \<longrightarrow>
            destructor executed sch_c (sch, w, this) = Inr (sch, w, this\<lparr>Destroying := True\<rparr>))
       \<and> (Destroying s \<and> Continue i s \<and> p < length (Threads s) \<and> Threads s ! p = ThreadWorker i \<longrightarrow>
            event_step executed (Runs p) (w0, s) =
              Inr (w0, s\<lparr>InvokerQueue := tl (InvokerQueue s),
                         Empty := (tl (InvokerQueue s) = []),
                         Threads := (Threads s)[p := Invoking i (hd (InvokerQueue s))]\<rparr>))
       \<and> ((case Controller this of
              None \<Rightarrow> True
            | Some c \<Rightarrow> serving c \<and> 1 \<le> count_list sch_c (Runs 0))
           \<and> (\<forall>p<length (Threads this).
                 2 * length (InvokerQueue this) + 2 \<le> count_list sch (Runs p))
           \<longrightarrow> (\<exists>r. destructor executed sch_c (sch, w, this) = Inr r))"
proof (intro conjI impI)
  assume d: "destructor executed sch_c (sch, w, this) = Inr (sch', w', this')"
  from destructor_Inr [OF d] obtain sch2 w2 this2 where
    c: "case Controller this of
              None \<Rightarrow> (sch2, w2, this2) = (sch, w, this)
            | Some c \<Rightarrow> \<exists>sch_c' c'. destructor_body (invoke executed) (sch_c, (sch, w, this), c)
                                   = Inr (sch_c', (sch2, w2, this2), c')"
    by blast
  note ph = destructor_phases [OF assms c]
  from ph(1) d
  have b: "destructor_body executed (sch2, w2, this2\<lparr>Controller := None\<rparr>) = Inr (sch', w', this')"
    by simp
  from reachable_consistent [OF ph(2)] have "consistent (this2\<lparr>Controller := None\<rparr>)"
    by (simp add: consistent_Controller)
  note R = destructor_body_result [OF this b]
  from R(1) show "Controller this' = None" by simp
  from R(2) show "list_all (\<lambda>t. t = NotAThread) (Threads this')" .
  from R(3) ph(3) show total: "mset w' + mset (InvokerQueue this')
                = mset w + mset (in_flight this) + mset (InvokerQueue this)" by simp
  from R(4) obtain j where "InvokerQueue this' = drop j (InvokerQueue this2)" by auto
  moreover from ph(4) obtain k where "InvokerQueue this2 = drop k (InvokerQueue this)" by blast
  ultimately have "InvokerQueue this' = drop (j + k) (InvokerQueue this)" by simp
  then show "\<exists>k. InvokerQueue this' = drop k (InvokerQueue this)" ..
  {
    assume run: "Running this'"
    with R(5) show "Destroying this'" by simp
    assume "Threads this' \<noteq> []"
    with R(5) run show q: "InvokerQueue this' = []" by simp
    with total show "mset w' = mset w + mset (in_flight this) + mset (InvokerQueue this)" by simp
  }
next
  assume h: "(case Controller this of
              None \<Rightarrow> (sch1, w1, this1) = (sch, w, this)
            | Some c \<Rightarrow> \<exists>sch_c' c'. destructor_body (invoke executed) (sch_c, (sch, w, this), c)
                                   = Inr (sch_c', (sch1, w1, this1), c'))
           \<and> (\<forall>p<length (Threads this1).
                 2 * length (InvokerQueue this1) + 2 \<le> count_list sch1 (Runs p))"
  then have c: "case Controller this of
              None \<Rightarrow> (sch1, w1, this1) = (sch, w, this)
            | Some c \<Rightarrow> \<exists>sch_c' c'. destructor_body (invoke executed) (sch_c, (sch, w, this), c)
                                   = Inr (sch_c', (sch1, w1, this1), c')"
    and fair: "\<forall>p<length (Threads this1).
                 2 * length (InvokerQueue this1) + 2 \<le> count_list sch1 (Runs p)"
    by simp_all
  from destructor_returns [OF assms c fair]
  show "\<exists>r. destructor executed sch_c (sch, w, this) = Inr r" .
next
  assume "Running this \<and> Controller this = None \<and> Threads this = []"
  then show "destructor executed sch_c (sch, w, this) = Inr (sch, w, this\<lparr>Destroying := True\<rparr>)"
    by (simp add: destructor_def destructor_body_def Sync_default_startId_def Sync_def
        notify_all_def)
next
  assume "Destroying s \<and> Continue i s \<and> p < length (Threads s) \<and> Threads s ! p = ThreadWorker i"
  then show "event_step executed (Runs p) (w0, s) =
              Inr (w0, s\<lparr>InvokerQueue := tl (InvokerQueue s),
                         Empty := (tl (InvokerQueue s) = []),
                         Threads := (Threads s)[p := Invoking i (hd (InvokerQueue s))]\<rparr>)"
    by (simp add: event_step_def worker_step_def Let_def Continue_not_OnHold)
next
  assume h: "(case Controller this of
              None \<Rightarrow> True
            | Some c \<Rightarrow> serving c \<and> 1 \<le> count_list sch_c (Runs 0))
           \<and> (\<forall>p<length (Threads this).
                 2 * length (InvokerQueue this) + 2 \<le> count_list sch (Runs p))"
  have "case Controller this of
              None \<Rightarrow> (sch, w, this) = (sch, w, this)
            | Some c \<Rightarrow> \<exists>sch_c' c'. destructor_body (invoke executed) (sch_c, (sch, w, this), c)
                                   = Inr (sch_c', (sch, w, this), c')"
  proof (cases "Controller this")
    case None
    then show ?thesis by simp
  next
    case (Some c)
    with h have "serving c" "1 \<le> count_list sch_c (Runs 0)" by simp_all
    from serving_destructor_body [OF this, of "invoke executed" "(sch, w, this)"] Some
    show ?thesis by simp
  qed
  from destructor_returns [OF assms this] h
  show "\<exists>r. destructor executed sch_c (sch, w, this) = Inr r" by simp
qed


theorem destructor_runs_what_is_left_witness:
  "reachable executed ([] :: nat list,
     \<lparr>InvokerQueue = [7, 8], Empty = False, Destroying = False, Running = True,
      NumberOfThreads = 1, Threads = [InWait 0],
      Controller = Some
        \<lparr>InvokerQueue = [] :: command list, Empty = True, Destroying = False, Running = True,
         NumberOfThreads = 1, Threads = [InWait 0], Controller = None :: unit option\<rparr>\<rparr>)
   \<and> destructor executed [Runs 0]
       ([Runs 0, Runs 0, Runs 0, Runs 0, Runs 0, Runs 0], [] :: nat list,
        \<lparr>InvokerQueue = [7, 8], Empty = False, Destroying = False, Running = True,
         NumberOfThreads = 1, Threads = [InWait 0],
         Controller = Some
           \<lparr>InvokerQueue = [], Empty = True, Destroying = False, Running = True,
            NumberOfThreads = 1, Threads = [InWait 0], Controller = None :: unit option\<rparr>\<rparr>)
     = Inr ([Runs 0], [7, 8],
        \<lparr>InvokerQueue = [], Empty = True, Destroying = True, Running = True,
         NumberOfThreads = 1, Threads = [NotAThread], Controller = None\<rparr>)
   \<and> (\<exists>r. destructor executed [Runs 0]
       ([Runs 0, Runs 0, Runs 0, Runs 0, Runs 0, Runs 0], [] :: nat list,
        \<lparr>InvokerQueue = [7, 8], Empty = False, Destroying = False, Running = True,
         NumberOfThreads = 1, Threads = [InWait 0],
         Controller = Some
           \<lparr>InvokerQueue = [], Empty = True, Destroying = False, Running = True,
            NumberOfThreads = 1, Threads = [InWait 0], Controller = None :: unit option\<rparr>\<rparr>)
       = Inr r)
   \<and> mset [7, 8 :: nat] = mset ([] :: nat list) + mset ([] :: nat list) + mset [7, 8]
   \<and> destructor executed []
       ([], [] :: nat list,
        \<lparr>InvokerQueue = [7, 8], Empty = False, Destroying = False, Running = True,
         NumberOfThreads = 0, Threads = [],
         Controller = None :: (command, unit) vtkThreadedCallbackQueue option\<rparr>)
     = Inr ([], [],
        \<lparr>InvokerQueue = [7, 8], Empty = False, Destroying = True, Running = True,
         NumberOfThreads = 0, Threads = [], Controller = None\<rparr>)
   \<and> event_step executed (Runs 0)
       ([] :: nat list,
        \<lparr>InvokerQueue = [7, 8], Empty = False, Destroying = True, Running = True,
         NumberOfThreads = 1, Threads = [ThreadWorker 0], Controller = None :: unit option\<rparr>)
     = Inr ([],
        \<lparr>InvokerQueue = [8], Empty = False, Destroying = True, Running = True,
         NumberOfThreads = 1, Threads = [Invoking 0 7], Controller = None\<rparr>)"
proof -
  let ?c = "\<lparr>InvokerQueue = [], Empty = True, Destroying = False, Running = True,
         NumberOfThreads = 1, Threads = [InWait 0], Controller = None :: unit option\<rparr>
         :: (command, unit) vtkThreadedCallbackQueue"
  let ?q = "\<lparr>InvokerQueue = [7, 8 :: nat], Empty = False, Destroying = False, Running = True,
      NumberOfThreads = 1, Threads = [InWait 0], Controller = Some ?c\<rparr>"
  let ?sch = "[Runs 0, Runs 0, Runs 0, Runs 0, Runs 0, Runs 0]"
  let ?none = "\<lparr>InvokerQueue = [7, 8 :: nat], Empty = False, Destroying = False, Running = True,
         NumberOfThreads = 0, Threads = [],
         Controller = None :: (command, unit) vtkThreadedCallbackQueue option\<rparr>"
  let ?s = "\<lparr>InvokerQueue = [7, 8 :: nat], Empty = False, Destroying = True, Running = True,
         NumberOfThreads = 1, Threads = [ThreadWorker 0], Controller = None :: unit option\<rparr>"
  have r0: "reachable executed ([] :: nat list,
      vtkThreadedCallbackQueue_init (Some ?c) :: (nat, (command, unit) vtkThreadedCallbackQueue) vtkThreadedCallbackQueue)"
    by (rule reachable.constructed)
  have "invoke executed StartLambda ([], [] :: nat list,
      vtkThreadedCallbackQueue_init (Some ?c) :: (nat, (command, unit) vtkThreadedCallbackQueue) vtkThreadedCallbackQueue)
      = Inr ([], [], \<lparr>InvokerQueue = [], Empty = True, Destroying = False, Running = True,
      NumberOfThreads = 1, Threads = [ThreadWorker 0], Controller = Some ?c\<rparr>)"
    by (simp add: Start_body_def vtkThreadedCallbackQueue_init_def joinable_def)
  from reachable.invoked [OF r0 this]
  have r1: "reachable executed ([] :: nat list,
      \<lparr>InvokerQueue = [] :: nat list, Empty = True, Destroying = False, Running = True,
      NumberOfThreads = 1, Threads = [ThreadWorker 0], Controller = Some ?c\<rparr>)" .
  have "event_step executed (Runs 0) ([] :: nat list,
      \<lparr>InvokerQueue = [] :: nat list, Empty = True, Destroying = False, Running = True,
      NumberOfThreads = 1, Threads = [ThreadWorker 0], Controller = Some ?c\<rparr>)
      = Inr ([], \<lparr>InvokerQueue = [], Empty = True, Destroying = False, Running = True,
      NumberOfThreads = 1, Threads = [InWait 0], Controller = Some ?c\<rparr>)"
    by (simp add: event_step_def worker_step_def OnHold_def)
  from reachable.stepped [OF r1 this]
  have "reachable executed ([] :: nat list,
      \<lparr>InvokerQueue = [] :: nat list, Empty = True, Destroying = False, Running = True,
      NumberOfThreads = 1, Threads = [InWait 0], Controller = Some ?c\<rparr>)" .
  from reachable.pushed [OF reachable.pushed [OF this, of 7], of 8]
  have r: "reachable executed ([], ?q)" by (simp add: Push_def)
  have c: "destructor_body (invoke executed) ([Runs 0], (?sch, [], ?q), ?c)
      = Inr ([], (?sch, [], ?q),
         \<lparr>InvokerQueue = [], Empty = True, Destroying = True, Running = True,
          NumberOfThreads = 1, Threads = [NotAThread], Controller = None\<rparr>)"
    by (simp add: destructor_body_def Sync_default_startId_def Sync_def notify_all_def wake_def
        event_step_def worker_step_def OnHold_def Continue_def)
  have d: "destructor executed [Runs 0] (?sch, [], ?q)
     = Inr ([Runs 0], [7, 8],
        \<lparr>InvokerQueue = [], Empty = True, Destroying = True, Running = True,
         NumberOfThreads = 1, Threads = [NotAThread], Controller = None\<rparr>)"
    by (simp add: destructor_def c)
      (simp add: destructor_body_def Sync_default_startId_def Sync_def notify_all_def wake_def
        event_step_def worker_step_def OnHold_def Continue_def executed_def)
  have r': "reachable executed ([], ?none)"
  proof -
    have i: "vtkThreadedCallbackQueue_init None
       = \<lparr>InvokerQueue = [] :: nat list, Empty = True, Destroying = False, Running = False,
         NumberOfThreads = 1, Threads = [NotAThread],
         Controller = None :: (command, unit) vtkThreadedCallbackQueue option\<rparr>"
      by (simp add: vtkThreadedCallbackQueue_init_def)
    have a: "invoke executed (SetNumberOfThreadsLambda 0) ([], [] :: nat list,
        \<lparr>InvokerQueue = [] :: nat list, Empty = True, Destroying = False, Running = False,
         NumberOfThreads = 1, Threads = [NotAThread],
         Controller = None :: (command, unit) vtkThreadedCallbackQueue option\<rparr>)
       = Inr ([], [], \<lparr>InvokerQueue = [], Empty = True, Destroying = False, Running = False,
         NumberOfThreads = 0, Threads = [], Controller = None\<rparr>)"
      by (simp add: SetNumberOfThreads_body_def resize_def joinable_def)
    have b: "invoke executed StartLambda ([], [] :: nat list,
        \<lparr>InvokerQueue = [] :: nat list, Empty = True, Destroying = False, Running = False,
         NumberOfThreads = 0, Threads = [],
         Controller = None :: (command, unit) vtkThreadedCallbackQueue option\<rparr>)
       = Inr ([], [], \<lparr>InvokerQueue = [], Empty = True, Destroying = False, Running = True,
         NumberOfThreads = 0, Threads = [], Controller = None\<rparr>)"
      by (simp add: Start_body_def)
    have "reachable executed ([] :: nat list,
        vtkThreadedCallbackQueue_init (None :: (command, unit) vtkThreadedCallbackQueue option)
          :: (nat, (command, unit) vtkThreadedCallbackQueue) vtkThreadedCallbackQueue)"
      by (rule reachable.constructed)
    from reachable.invoked [OF reachable.invoked [OF this [unfolded i] a] b]
    have "reachable executed ([] :: nat list,
        \<lparr>InvokerQueue = [] :: nat list, Empty = True, Destroying = False, Running = True,
         NumberOfThreads = 0, Threads = [],
         Controller = None :: (command, unit) vtkThreadedCallbackQueue option\<rparr>)" .
    from reachable.pushed [OF reachable.pushed [OF this, of 7], of 8]
    show ?thesis by (simp add: Push_def)
  qed
  note T = destructor_runs_what_is_left [OF r, of "[Runs 0]" ?sch "[Runs 0]" "[7, 8]"
      "\<lparr>InvokerQueue = [], Empty = True, Destroying = True, Running = True,
         NumberOfThreads = 1, Threads = [NotAThread], Controller = None\<rparr>"
      ?sch "[]" ?q ?s 0 0 "[]"]
  note T' = destructor_runs_what_is_left [OF r', of "[]" "[]" "[]" "[]" ?none "[]" "[]" ?none ?s 0 0 "[]"]
  from T [THEN conjunct2, THEN conjunct1] c
    T [THEN conjunct2, THEN conjunct2, THEN conjunct2, THEN conjunct2]
  have 0: "\<exists>r. destructor executed [Runs 0] (?sch, [], ?q) = Inr r"
    by (simp add: serving_def)
  from T [THEN conjunct1] d
  have 1: "mset [7, 8 :: nat] = mset ([] :: nat list) + mset ([] :: nat list) + mset [7, 8]"
    by simp
  from T' [THEN conjunct2, THEN conjunct2, THEN conjunct1]
  have 2: "destructor executed [] ([], [] :: nat list, ?none)
     = Inr ([], [],
        \<lparr>InvokerQueue = [7, 8], Empty = False, Destroying = True, Running = True,
         NumberOfThreads = 0, Threads = [], Controller = None\<rparr>)" by simp
  from T [THEN conjunct2, THEN conjunct2, THEN conjunct2, THEN conjunct1]
  have 3: "event_step executed (Runs 0) ([] :: nat list, ?s)
     = Inr ([],
        \<lparr>InvokerQueue = [8], Empty = False, Destroying = True, Running = True,
         NumberOfThreads = 1, Threads = [Invoking 0 7], Controller = None\<rparr>)"
    by (simp add: Continue_def)
  show ?thesis by (intro conjI r d 0 1 2 3)
qed

theorem destructor_counterexample:
  "destructor executed []
       ([Runs 0, Runs 0, Runs 0, Runs 0, Runs 0], [] :: nat list,
        \<lparr>InvokerQueue = [7, 8], Empty = False, Destroying = False, Running = True,
         NumberOfThreads = 1, Threads = [InWait 0],
         Controller = None :: (command, unit) vtkThreadedCallbackQueue option\<rparr>)
     = Inr ([], [7, 8],
        \<lparr>InvokerQueue = [], Empty = True, Destroying = True, Running = True,
         NumberOfThreads = 1, Threads = [NotAThread], Controller = None\<rparr>)
   \<and> event_step executed (Runs 0)
       ([] :: nat list,
        \<lparr>InvokerQueue = [7, 8], Empty = False, Destroying = True, Running = True,
         NumberOfThreads = 1, Threads = [ThreadWorker 0], Controller = None :: unit option\<rparr>)
     = Inr ([],
        \<lparr>InvokerQueue = [8], Empty = False, Destroying = True, Running = True,
         NumberOfThreads = 1, Threads = [Invoking 0 7], Controller = None\<rparr>)"
  by (simp add: destructor_def destructor_body_def Sync_default_startId_def Sync_def
      notify_all_def wake_def event_step_def worker_step_def OnHold_def Continue_def
      executed_def)


section \<open>The controller at work\<close>

lemma serving_step:
  assumes "event_step call e (X, c) = Inr (X', c')" and "serving c"
  shows "X' = X \<and> serving c'"
  using assms(1)
proof (cases rule: event_step_cases)
  case idle
  with assms(2) show ?thesis by simp
next
  case (hold p i)
  with assms(2) show ?thesis by (auto simp: serving_def)
next
  case (leave p i)
  with assms(2) show ?thesis by (auto simp: serving_def OnHold_def)
next
  case (pop p i)
  with assms(2) show ?thesis by (auto simp: serving_def Continue_def)
next
  case (call p i x)
  with assms(2) show ?thesis by (auto simp: serving_def)
next
  case (woken p i)
  with assms(2) show ?thesis by (auto simp: serving_def)
qed

lemma serving_run:
  assumes "run_events call xs (X, c) = Inr (X', c')" and "serving c"
  shows "X' = X \<and> serving c'"
  using assms
proof (induction xs arbitrary: X c)
  case Nil
  then show ?case by simp
next
  case (Cons e xs)
  from Cons.prems(1) obtain X1 c1 where e: "event_step call e (X, c) = Inr (X1, c1)"
    and r: "run_events call xs (X1, c1) = Inr (X', c')"
    by (auto split: sum.splits)
  from serving_step [OF e Cons.prems(2)] Cons.IH [OF r] show ?case by simp
qed

lemma calling_step:
  assumes "event_step call e (X, c) = Inr (X1, c1)" and "calling f c"
  shows "(X1 = X \<and> c1 = c) \<or> (call f X = Inr X1 \<and> serving c1)"
  using assms(1)
proof (cases rule: event_step_cases)
  case idle
  then show ?thesis by simp
next
  case (hold p i)
  with assms(2) show ?thesis by (auto simp: calling_def)
next
  case (leave p i)
  with assms(2) show ?thesis by (auto simp: calling_def)
next
  case (pop p i)
  with assms(2) show ?thesis by (auto simp: calling_def)
next
  case (call p i x)
  with assms(2) show ?thesis by (auto simp: calling_def serving_def)
next
  case (woken p i)
  with assms(2) show ?thesis by (auto simp: calling_def)
qed

lemma calling_run:
  assumes "run_events call xs (X, c) = Inr (X', c')" and "calling f c" and "in_flight c' = []"
  shows "call f X = Inr X' \<and> serving c'"
  using assms
proof (induction xs arbitrary: X c)
  case Nil
  then show ?case by (simp add: calling_def in_flight_def held_def)
next
  case (Cons e xs)
  from Cons.prems(1) obtain X1 c1 where e: "event_step call e (X, c) = Inr (X1, c1)"
    and r: "run_events call xs (X1, c1) = Inr (X', c')"
    by (auto split: sum.splits)
  from calling_step [OF e Cons.prems(2)] show ?case
  proof
    assume "X1 = X \<and> c1 = c"
    with Cons.IH [OF r] Cons.prems(2,3) show ?thesis by simp
  next
    assume a: "call f X = Inr X1 \<and> serving c1"
    with serving_run [OF r] show ?thesis by simp
  qed
qed

lemma pending_step:
  assumes "event_step call e (X, c) = Inr (X1, c1)" and "pending f c"
  shows "X1 = X \<and> (pending f c1 \<or> calling f c1)"
  using assms(1)
proof (cases rule: event_step_cases)
  case idle
  with assms(2) show ?thesis by simp
next
  case (hold p i)
  with assms(2) show ?thesis by (auto simp: pending_def OnHold_def)
next
  case (leave p i)
  with assms(2) show ?thesis by (auto simp: pending_def OnHold_def Continue_def)
next
  case (pop p i)
  with assms(2) show ?thesis by (auto simp: pending_def calling_def)
next
  case (call p i x)
  with assms(2) show ?thesis by (auto simp: pending_def)
next
  case (woken p i)
  with assms(2) show ?thesis by (auto simp: pending_def)
qed

lemma pending_run:
  assumes "run_events call xs (X, c) = Inr (X', c')" and "pending f c"
    and "InvokerQueue c' = []" and "in_flight c' = []"
  shows "call f X = Inr X' \<and> serving c'"
  using assms
proof (induction xs arbitrary: c)
  case Nil
  then show ?case by (simp add: pending_def)
next
  case (Cons e xs)
  from Cons.prems(1) obtain X1 c1 where e: "event_step call e (X, c) = Inr (X1, c1)"
    and r: "run_events call xs (X1, c1) = Inr (X', c')"
    by (auto split: sum.splits)
  from pending_step [OF e Cons.prems(2)] have X1: "X1 = X" and "pending f c1 \<or> calling f c1"
    by simp_all
  from this(2) show ?case
  proof
    assume "pending f c1"
    from Cons.IH [OF r [unfolded X1] this Cons.prems(3,4)] show ?thesis .
  next
    assume "calling f c1"
    from calling_run [OF r [unfolded X1] this Cons.prems(4)] show ?thesis .
  qed
qed

lemma serving_Push: "serving c \<Longrightarrow> pending f (Push f c)"
  by (auto simp: serving_def pending_def Push_def)

lemma serving_Push_run:
  assumes "serving c" and "call f X = Inr X'"
  shows "run_events call [Wakes 0, Runs 0, Runs 0] (X, Push f c)
           = Inr (X', c\<lparr>Threads := [ThreadWorker 0]\<rparr>)"
  using assms
  by (auto simp: serving_def Push_def event_step_def worker_step_def wake_def
      OnHold_def Continue_def)


lemma invoke_Controller:
  assumes "invoke call f (sch, w, s) = Inr (sch', w', s')"
  shows "Controller s' = Controller s"
proof (cases f)
  case (SetNumberOfThreadsLambda n)
  with assms have b: "SetNumberOfThreads_body call n (sch, w, s) = Inr (sch', w', s')" by simp
  consider (same) "int (length (Threads s)) = n"
    | (stopped) "int (length (Threads s)) \<noteq> n" "\<not> Running s"
    | (grow) "int (length (Threads s)) < n" "Running s"
    | (shrink) "n < int (length (Threads s))" "Running s"
    by (cases "Running s"; cases "int (length (Threads s))" n rule: linorder_cases) auto
  then show ?thesis
  proof cases
    case same
    with b show ?thesis by (simp add: SetNumberOfThreads_body_same)
  next
    case stopped
    from SetNumberOfThreads_body_stopped [OF stopped(2,1) b] show ?thesis by simp
  next
    case grow
    from SetNumberOfThreads_body_grow [OF grow(2,1), of call sch w] b show ?thesis by auto
  next
    case shrink
    from SetNumberOfThreads_body_shrink_Inr [OF shrink(2,1) b] obtain xs s1 where
      r: "run_events call xs (w, notify_all (s\<lparr>NumberOfThreads := n\<rparr>)) = Inr (w', s1)"
      and s': "s' = s1\<lparr>Threads := take (nat n) (Threads s1)\<rparr>"
      by blast
    from run_events_frame [OF r] show ?thesis by (simp add: s')
  qed
next
  case StopLambda
  with assms have b: "Stop_body call (sch, w, s) = Inr (sch', w', s')" by simp
  show ?thesis
  proof (cases "Running s")
    case False
    with b show ?thesis by (simp add: Stop_body_def)
  next
    case True
    from Stop_body_Inr [OF True b] obtain xs s1 where
      r: "run_events call xs (w, notify_all (s\<lparr>Running := False\<rparr>)) = Inr (w', s1)"
      and s': "s' = s1\<lparr>Threads := map (\<lambda>t. NotAThread) (Threads s1)\<rparr>"
      by blast
    from run_events_frame [OF r] show ?thesis by (simp add: s')
  qed
next
  case StartLambda
  with assms have b: "Start_body (sch, w, s) = Inr (sch', w', s')" by simp
  show ?thesis
  proof (cases "Running s")
    case True
    with b show ?thesis by (simp add: Start_body_def)
  next
    case False
    from Start_body_Inr [OF False b] show ?thesis by simp
  qed
qed

text \<open>
  A public method on a queue whose controller has nothing else to do: once the
  controller's worker has called the closure, what has happened to the queue is what
  the closure does, and the controller has nothing to do again.
\<close>

lemma public_call:
  assumes ctl: "case Controller this of None \<Rightarrow> True | Some c \<Rightarrow> serving c"
    and run: "and_then (Execute call (Controller this) f (sch, w, this))
                (Controller_events call sch_c) = Inr (sch', w', this')"
    and idle: "idle this'"
  shows "\<exists>x s' y. invoke call f (sch, w, this\<lparr>Controller := x\<rparr>) = Inr (sch', w', s')
           \<and> this' = s'\<lparr>Controller := y\<rparr>
           \<and> (case y of None \<Rightarrow> True | Some c \<Rightarrow> serving c)"
proof (cases "Controller this")
  case None
  have eq: "this\<lparr>Controller := None\<rparr> = this" unfolding None [symmetric] by simp
  from run None obtain s1 where i: "invoke call f (sch, w, this) = Inr s1"
    and c: "Controller_events call sch_c s1 = Inr (sch', w', this')"
    by (auto simp: and_then_def Execute_def split: sum.splits)
  obtain sch1 w1 this1 where s1: "s1 = (sch1, w1, this1)" by (cases s1)
  from invoke_Controller [OF i [unfolded s1]] None have n: "Controller this1 = None" by simp
  with c have "(sch', w', this') = (sch1, w1, this1)" by (simp add: Controller_events_def s1)
  with i s1 n have "invoke call f (sch, w, this\<lparr>Controller := None\<rparr>) = Inr (sch', w', this')"
    and "this' = this'\<lparr>Controller := None\<rparr>"
    unfolding eq by (simp_all add: n [symmetric])
  then show ?thesis by (metis option.simps(4))
next
  case (Some c)
  with ctl have sv: "serving c" by simp
  let ?X = "(sch, w, this\<lparr>Controller := Some (Push f c)\<rparr>)"
  from run Some obtain X' c' where
    r: "run_events (invoke call) sch_c (?X, Push f c) = Inr (X', c')"
    and t: "(sch', w', this') = (fst X', fst (snd X'), (snd (snd X'))\<lparr>Controller := Some c'\<rparr>)"
    by (auto simp: and_then_def Execute_def Controller_events_def split: sum.splits)
  from t idle have "InvokerQueue c' = []" "in_flight c' = []" by (simp_all add: idle_def)
  from pending_run [OF r serving_Push [OF sv] this]
  have i: "invoke call f ?X = Inr X'" and s: "serving c'" by simp_all
  from i t s show ?thesis
    by (intro exI [of _ "Some (Push f c)"] exI [of _ "snd (snd X')"] exI [of _ "Some c'"])
      simp
qed

lemma public_call_returns:
  assumes ctl: "case Controller this of None \<Rightarrow> True | Some c \<Rightarrow> serving c"
    and "\<And>x. \<exists>r. invoke call f (sch, w, this\<lparr>Controller := x\<rparr>) = Inr r"
  shows "\<exists>r. and_then (Execute call (Controller this) f (sch, w, this))
                (Controller_events call [Wakes 0, Runs 0, Runs 0]) = Inr r
            \<and> idle (snd (snd r))"
proof (cases "Controller this")
  case None
  have eq: "this\<lparr>Controller := None\<rparr> = this" unfolding None [symmetric] by simp
  from assms(2) [of None] obtain sch1 w1 this1
    where i: "invoke call f (sch, w, this) = Inr (sch1, w1, this1)"
    unfolding eq by (metis prod_cases3)
  from invoke_Controller [OF i] None have n: "Controller this1 = None" by simp
  with i None show ?thesis
    by (simp add: and_then_def Execute_def Controller_events_def idle_def)
next
  case (Some c)
  with ctl have sv: "serving c" by simp
  let ?X = "(sch, w, this\<lparr>Controller := Some (Push f c)\<rparr>)"
  from assms(2) [of "Some (Push f c)"] obtain X' where i: "invoke call f ?X = Inr X'" by blast
  from serving_Push_run [of c "invoke call" f ?X X', OF sv i] Some show ?thesis
    by (cases X')
      (simp add: and_then_def Execute_def Controller_events_def idle_def in_flight_def held_def
        serving_def sv [unfolded serving_def])
qed


section \<open>Stop, and Start again\<close>

lemma event_step_stopped:
  assumes "event_step call e (w, s) = Inr (w', s')" and "\<not> Running s"
  shows "InvokerQueue s' = InvokerQueue s \<and> Empty s' = Empty s"
  using assms by (cases rule: event_step_cases) (auto simp: Continue_def)

lemma run_events_stopped:
  assumes "run_events call xs (w, s) = Inr (w', s')" and "\<not> Running s"
  shows "InvokerQueue s' = InvokerQueue s \<and> Empty s' = Empty s"
  using assms
proof (induction xs arbitrary: w s)
  case Nil
  then show ?case by simp
next
  case (Cons e xs)
  from Cons.prems(1) obtain w1 s1 where e: "event_step call e (w, s) = Inr (w1, s1)"
    and r: "run_events call xs (w1, s1) = Inr (w', s')"
    by (auto split: sum.splits)
  from event_step_frame [OF e] event_step_stopped [OF e Cons.prems(2)] Cons.IH [OF r] Cons.prems(2)
  show ?case by simp
qed

text \<open>With one worker the invokers are called in the order of the queue.\<close>

lemma event_step_order:
  assumes "event_step executed e (w, s) = Inr (w', s')" and "length (Threads s) = 1"
  shows "w' @ in_flight s' @ InvokerQueue s' = w @ in_flight s @ InvokerQueue s"
proof -
  from assms(2) obtain t where t: "Threads s = [t]" by (cases "Threads s") auto
  from assms(1) show ?thesis
  proof (cases rule: event_step_cases)
    case idle
    then show ?thesis by simp
  next
    case (hold p i)
    with t show ?thesis by (simp add: in_flight_def held_def)
  next
    case (leave p i)
    with t show ?thesis by (simp add: in_flight_def held_def)
  next
    case (pop p i)
    then have "InvokerQueue s \<noteq> []" by (simp add: Continue_def)
    with pop t show ?thesis by (simp add: in_flight_def held_def)
  next
    case (call p i x)
    with t show ?thesis by (simp add: in_flight_def held_def executed_def)
  next
    case (woken p i)
    with t show ?thesis by (simp add: in_flight_def held_def)
  qed
qed

lemma run_events_order:
  assumes "run_events executed xs (w, s) = Inr (w', s')" and "length (Threads s) = 1"
  shows "w' @ in_flight s' @ InvokerQueue s' = w @ in_flight s @ InvokerQueue s"
  using assms
proof (induction xs arbitrary: w s)
  case Nil
  then show ?case by simp
next
  case (Cons e xs)
  from Cons.prems(1) obtain w1 s1 where e: "event_step executed e (w, s) = Inr (w1, s1)"
    and r: "run_events executed xs (w1, s1) = Inr (w', s')"
    by (auto split: sum.splits)
  from event_step_frame [OF e] event_step_order [OF e Cons.prems(2)] Cons.IH [OF r] Cons.prems(2)
  show ?case by simp
qed

lemma Stop_body_running:
  assumes c: "consistent s" and r: "Running s"
    and b: "Stop_body executed (sch, w, s) = Inr (sch', w', s')"
  shows "InvokerQueue s' = InvokerQueue s" and "Empty s' = Empty s" and "\<not> Running s'"
    and "Destroying s' = Destroying s" and "NumberOfThreads s' = NumberOfThreads s"
    and "Controller s' = Controller s"
    and "Threads s' = replicate (length (Threads s)) NotAThread"
    and "mset w' = mset w + mset (in_flight s)"
    and "length (Threads s) = 1 \<longrightarrow> w' = w @ in_flight s"
proof -
  let ?s = "notify_all (s\<lparr>Running := False\<rparr>)"
  from Stop_body_Inr [OF r b] obtain xs s1 where
    run: "run_events executed xs (w, ?s) = Inr (w', s1)"
    and fin: "\<forall>p<length (Threads s). \<exists>i. Threads s1 ! p = Finished i"
    and s': "s' = s1\<lparr>Threads := map (\<lambda>t. NotAThread) (Threads s1)\<rparr>"
    by blast
  note f = run_events_frame [OF run]
  have q: "InvokerQueue s1 = InvokerQueue s" "Empty s1 = Empty s"
    using run_events_stopped [OF run] by simp_all
  from q show "InvokerQueue s' = InvokerQueue s" "Empty s' = Empty s" by (simp_all add: s')
  from f show "\<not> Running s'" "Destroying s' = Destroying s"
    "NumberOfThreads s' = NumberOfThreads s" "Controller s' = Controller s"
    "Threads s' = replicate (length (Threads s)) NotAThread"
    by (simp_all add: s' map_replicate_const)
  from fin f have "\<forall>p<length (Threads s1). held (Threads s1 ! p) = []"
    by (auto simp: held_def)
  then have "\<forall>t\<in>set (Threads s1). held t = []" by (auto simp: in_set_conv_nth)
  then have i1: "in_flight s1 = []" by (simp add: in_flight_def)
  from run_events_conserves [OF run] i1 q show "mset w' = mset w + mset (in_flight s)" by simp
  show "length (Threads s) = 1 \<longrightarrow> w' = w @ in_flight s"
  proof
    assume "length (Threads s) = 1"
    then have "length (Threads ?s) = 1" by simp
    from run_events_order [OF run this] i1 q show "w' = w @ in_flight s" by simp
  qed
qed

text \<open>
  After \<^verbatim>\<open>Start\<close> the workers are in service; one that waits has found the queue of
  invokers empty, and nothing is pushed here.
\<close>

lemma work_left_step:
  assumes e: "event_step call e (w, s) = Inr (w', s')"
    and s: "Running s" "\<not> Destroying s"
    and p: "p < length (Threads s)" "in_service (NumberOfThreads s) (Threads s ! p)"
      "\<forall>i. Threads s ! p = InWait i \<longrightarrow> InvokerQueue s = []"
  shows "(\<forall>i. Threads s' ! p = InWait i \<longrightarrow> InvokerQueue s' = [])
       \<and> work_left s' (Threads s' ! p)
           \<le> work_left s (Threads s ! p) - (if e = Runs p then 1 else 0)"
proof -
  consider (other) "e \<noteq> Runs p" "e \<noteq> Wakes p" | (wakes) "e = Wakes p" | (runs) "e = Runs p"
    by blast
  then show ?thesis
  proof cases
    case other
    from event_step_other [OF e other] have t: "Threads s' ! p = Threads s ! p" .
    from event_step_queue [OF e] p(3) other(1) show ?thesis unfolding t
      by (auto simp: work_left_def)
  next
    case wakes
    show ?thesis
    proof (cases "\<exists>i. Threads s ! p = InWait i")
      case True
      then obtain i where i: "Threads s ! p = InWait i" by blast
      with e wakes p(1) have "s' = s\<lparr>Threads := (Threads s)[p := ThreadWorker i]\<rparr>"
        by (simp add: event_step_def wake_def)
      with i p(1) wakes show ?thesis by (simp add: work_left_def)
    next
      case False
      then have "wake (Threads s ! p) = Threads s ! p"
        by (cases "Threads s ! p") (auto simp: wake_def)
      with e wakes p(1) have "s' = s" by (simp add: event_step_def)
      with p(3) wakes show ?thesis by simp
    qed
  next
    case runs
    show ?thesis
    proof (cases "Threads s ! p")
      case NotAThread
      with p(2) show ?thesis by (simp add: in_service_def)
    next
      case (Finished i)
      with p(2) show ?thesis by (simp add: in_service_def)
    next
      case (InWait i)
      with e runs p(1) have "s' = s" by (simp add: event_step_def worker_step_def)
      with InWait p(3) show ?thesis by (simp add: work_left_def)
    next
      case (Invoking i x)
      with e runs p(1) have s': "s' = s\<lparr>Threads := (Threads s)[p := ThreadWorker i]\<rparr>"
        by (auto simp: event_step_def worker_step_def split: sum.splits)
      with Invoking p(1) show ?thesis by (simp add: work_left_def)
    next
      case (ThreadWorker i)
      with p(2) have i: "i < NumberOfThreads s" by (simp add: in_service_def)
      show ?thesis
      proof (cases "InvokerQueue s = []")
        case True
        with i s have "OnHold i s" by (simp add: OnHold_def)
        with e runs p(1) ThreadWorker have "s' = s\<lparr>Threads := (Threads s)[p := InWait i]\<rparr>"
          by (simp add: event_step_def worker_step_def)
        with True p(1) show ?thesis by (simp add: work_left_def)
      next
        case False
        with i s have "\<not> OnHold i s" "Continue i s" by (simp_all add: OnHold_def Continue_def)
        with e runs p(1) ThreadWorker
        have s': "s' = s\<lparr>InvokerQueue := tl (InvokerQueue s),
              Empty := (tl (InvokerQueue s) = []),
              Threads := (Threads s)[p := Invoking i (hd (InvokerQueue s))]\<rparr>"
          by (simp add: event_step_def worker_step_def Let_def)
        with False p(1) ThreadWorker show ?thesis
          by (cases "InvokerQueue s") (simp_all add: work_left_def)
      qed
    qed
  qed
qed

lemma run_events_work_left:
  assumes "run_events call xs (w, s) = Inr (w', s')"
    and "Running s" "\<not> Destroying s"
    and "p < length (Threads s)" "in_service (NumberOfThreads s) (Threads s ! p)"
      "\<forall>i. Threads s ! p = InWait i \<longrightarrow> InvokerQueue s = []"
  shows "work_left s' (Threads s' ! p) \<le> work_left s (Threads s ! p) - count_list xs (Runs p)"
  using assms
proof (induction xs arbitrary: w s)
  case Nil
  then show ?case by simp
next
  case (Cons e xs)
  from Cons.prems(1) obtain w1 s1 where e: "event_step call e (w, s) = Inr (w1, s1)"
    and r: "run_events call xs (w1, s1) = Inr (w', s')"
    by (auto split: sum.splits)
  note f = event_step_frame [OF e]
  note st = work_left_step [OF e Cons.prems(2-6)]
  from event_step_in_service [OF e Cons.prems(2-5)]
  have "in_service (NumberOfThreads s1) (Threads s1 ! p)" .
  with Cons.IH [OF r] f Cons.prems(2-4) st
  have "work_left s' (Threads s' ! p) \<le> work_left s1 (Threads s1 ! p) - count_list xs (Runs p)"
    by simp
  with st show ?case by (auto split: if_splits)
qed

lemma work_left_0:
  "work_left s t = 0 \<Longrightarrow> InvokerQueue s = [] \<and> held t = []"
  by (cases t) (simp_all add: work_left_def held_def)

lemma in_flight_Nil:
  assumes "\<forall>p<length (Threads s). held (Threads s ! p) = []"
  shows "in_flight s = []"
proof -
  from assms have "\<forall>t\<in>set (Threads s). held t = []" by (auto simp: in_set_conv_nth)
  then show ?thesis by (simp add: in_flight_def)
qed


lemma run_events_no_thread:
  assumes "run_events call xs (w, s) = Inr (w', s')" and "Threads s = []"
  shows "w' = w \<and> s' = s"
  using assms
proof (induction xs arbitrary: w s)
  case Nil
  then show ?case by simp
next
  case (Cons e xs)
  from Cons.prems(1) obtain w1 s1 where e: "event_step call e (w, s) = Inr (w1, s1)"
    and r: "run_events call xs (w1, s1) = Inr (w', s')"
    by (auto split: sum.splits)
  from event_step_NotAThread [OF e] Cons.prems(2) have "w1 = w \<and> s1 = s" by simp
  with Cons.IH [OF r] Cons.prems(2) show ?case by simp
qed

lemma started_run:
  assumes s: "Running s" "\<not> Destroying s"
    and t: "Threads s = map (\<lambda>p. ThreadWorker (int p)) [0 ..< K]"
    and n: "int K = NumberOfThreads s"
    and run: "run_events executed xs (w, s) = Inr (w', s')"
  shows "\<exists>k. InvokerQueue s' = drop k (InvokerQueue s)
           \<and> mset w' + mset (in_flight s') = mset w + mset (take k (InvokerQueue s))
           \<and> (K = 1 \<longrightarrow> w' @ in_flight s' = w @ take k (InvokerQueue s))"
    and "K \<noteq> 0 \<and> (\<forall>p<K. 2 * length (InvokerQueue s) \<le> count_list xs (Runs p)) \<longrightarrow>
           InvokerQueue s' = [] \<and> in_flight s' = []"
    and "K = 0 \<longrightarrow> InvokerQueue s' = InvokerQueue s \<and> w' = w"
proof -
  from t have i0: "in_flight s = []" by (simp add: in_flight_def held_def comp_def)
  from t have l: "length (Threads s) = K" by simp
  note f = run_events_frame [OF run]
  from f obtain k where k: "InvokerQueue s' = drop k (InvokerQueue s)" by blast
  have split: "InvokerQueue s = take k (InvokerQueue s) @ drop k (InvokerQueue s)" by simp
  from run_events_conserves [OF run] i0 k
  have "mset w' + mset (in_flight s') + mset (drop k (InvokerQueue s))
      = mset w + mset (take k (InvokerQueue s) @ drop k (InvokerQueue s))"
    by simp
  then have m: "mset w' + mset (in_flight s') = mset w + mset (take k (InvokerQueue s))"
    by (simp del: append_take_drop_id)
  have o: "w' @ in_flight s' = w @ take k (InvokerQueue s)" if "K = 1"
  proof -
    from that l have "length (Threads s) = 1" by simp
    from run_events_order [OF run this] i0 k
    have "(w' @ in_flight s') @ drop k (InvokerQueue s)
        = (w @ take k (InvokerQueue s)) @ drop k (InvokerQueue s)"
      by simp
    then show ?thesis by (simp only: append_same_eq)
  qed
  from k m o show "\<exists>k. InvokerQueue s' = drop k (InvokerQueue s)
           \<and> mset w' + mset (in_flight s') = mset w + mset (take k (InvokerQueue s))
           \<and> (K = 1 \<longrightarrow> w' @ in_flight s' = w @ take k (InvokerQueue s))"
    by blast
  show "K \<noteq> 0 \<and> (\<forall>p<K. 2 * length (InvokerQueue s) \<le> count_list xs (Runs p)) \<longrightarrow>
           InvokerQueue s' = [] \<and> in_flight s' = []"
  proof
    assume a: "K \<noteq> 0 \<and> (\<forall>p<K. 2 * length (InvokerQueue s) \<le> count_list xs (Runs p))"
    have z: "work_left s' (Threads s' ! p) = 0" if "p < K" for p
    proof -
      from that t have tp: "Threads s ! p = ThreadWorker (int p)" by simp
      have "work_left s' (Threads s' ! p) \<le> work_left s (Threads s ! p) - count_list xs (Runs p)"
        using that tp n l by (intro run_events_work_left [OF run s]) (simp_all add: in_service_def)
      moreover have "work_left s (Threads s ! p) = 2 * length (InvokerQueue s)"
        by (simp add: tp work_left_def)
      ultimately show ?thesis using a that by simp
    qed
    from a have "0 < K" by simp
    from work_left_0 [OF z [OF this]] have "InvokerQueue s' = []" by simp
    moreover have "in_flight s' = []"
    proof (rule in_flight_Nil, intro allI impI)
      fix p assume "p < length (Threads s')"
      with f l have "p < K" by simp
      from work_left_0 [OF z [OF this]] show "held (Threads s' ! p) = []" by simp
    qed
    ultimately show "InvokerQueue s' = [] \<and> in_flight s' = []" by simp
  qed
  show "K = 0 \<longrightarrow> InvokerQueue s' = InvokerQueue s \<and> w' = w"
  proof
    assume "K = 0"
    with t have "Threads s = []" by simp
    from run_events_no_thread [OF run this] show "InvokerQueue s' = InvokerQueue s \<and> w' = w"
      by simp
  qed
qed


lemma Stop_public:
  assumes r: "reachable executed (w, this)" and run: "Running this"
    and ctl: "case Controller this of None \<Rightarrow> True | Some c \<Rightarrow> serving c"
    and st: "and_then (Stop executed (sch, w, this)) (Controller_events executed sch_c)
               = Inr (sch1, w1, this1)"
    and idle: "idle this1"
  shows "InvokerQueue this1 = InvokerQueue this" and "Empty this1 = Empty this"
    and "\<not> Running this1" and "Threads this1 = replicate (length (Threads this)) NotAThread"
    and "mset w1 = mset w + mset (in_flight this)"
    and "length (Threads this) = 1 \<longrightarrow> w1 = w @ in_flight this"
    and "reachable executed (w1, this1)"
    and "case Controller this1 of None \<Rightarrow> True | Some c \<Rightarrow> serving c"
proof -
  from st have "and_then (Execute executed (Controller this) StopLambda (sch, w, this))
                  (Controller_events executed sch_c) = Inr (sch1, w1, this1)"
    by (simp add: Stop_def)
  from public_call [OF ctl this idle] obtain x s' y where
    b: "Stop_body executed (sch, w, this\<lparr>Controller := x\<rparr>) = Inr (sch1, w1, s')"
    and t: "this1 = s'\<lparr>Controller := y\<rparr>"
    and y: "case y of None \<Rightarrow> True | Some c \<Rightarrow> serving c"
    by auto
  from reachable.outside [OF r, of w x] have rx: "reachable executed (w, this\<lparr>Controller := x\<rparr>)" .
  from reachable_consistent [OF rx] have cx: "consistent (this\<lparr>Controller := x\<rparr>)" by simp
  from run have runx: "Running (this\<lparr>Controller := x\<rparr>)" by simp
  note S = Stop_body_running [OF cx runx b]
  from S(1) show "InvokerQueue this1 = InvokerQueue this" by (simp add: t)
  from S(2) show "Empty this1 = Empty this" by (simp add: t)
  from S(3) show "\<not> Running this1" by (simp add: t)
  from S(7) show "Threads this1 = replicate (length (Threads this)) NotAThread" by (simp add: t)
  from S(8) show "mset w1 = mset w + mset (in_flight this)" by simp
  from S(9) show "length (Threads this) = 1 \<longrightarrow> w1 = w @ in_flight this" by simp
  have "invoke executed StopLambda (sch, w, this\<lparr>Controller := x\<rparr>) = Inr (sch1, w1, s')"
    using b by simp
  from reachable.invoked [OF rx this] have "reachable executed (w1, s')" .
  from reachable.outside [OF this, of w1 y] show "reachable executed (w1, this1)" by (simp add: t)
  from y show "case Controller this1 of None \<Rightarrow> True | Some c \<Rightarrow> serving c" by (simp add: t)
qed

lemma Start_public:
  assumes c: "consistent this" and run: "\<not> Running this"
    and ctl: "case Controller this of None \<Rightarrow> True | Some c \<Rightarrow> serving c"
    and st: "and_then (Start executed (sch, w, this)) (Controller_events executed sch_c)
               = Inr (sch', w', this')"
    and idle: "idle this'"
  shows "sch' = sch" and "w' = w" and "Running this'" and "\<not> Destroying this'"
    and "InvokerQueue this' = InvokerQueue this"
    and "NumberOfThreads this' = NumberOfThreads this"
    and "Threads this' = map (\<lambda>p. ThreadWorker (int p)) [0 ..< length (Threads this)]"
proof -
  from st have "and_then (Execute executed (Controller this) StartLambda (sch, w, this))
                  (Controller_events executed sch_c) = Inr (sch', w', this')"
    by (simp add: Start_def)
  from public_call [OF ctl this idle] obtain x s' y where
    b: "Start_body (sch, w, this\<lparr>Controller := x\<rparr>) = Inr (sch', w', s')"
    and t: "this' = s'\<lparr>Controller := y\<rparr>"
    by auto
  from run have "\<not> Running (this\<lparr>Controller := x\<rparr>)" by simp
  note S = Start_body_Inr [OF this b]
  from S show "sch' = sch" "w' = w" by simp_all
  from S c show "Running this'" "\<not> Destroying this'" "InvokerQueue this' = InvokerQueue this"
    "NumberOfThreads this' = NumberOfThreads this"
    "Threads this' = map (\<lambda>p. ThreadWorker (int p)) [0 ..< length (Threads this)]"
    by (simp_all add: t consistent_def)
qed

text \<open>
  C5 (amended): \<^verbatim>\<open>Stop()\<close> on a running queue, once the controller's worker has called
  its closure, has left the queue of invokers as it was: the workers have finished the
  calls they were in and have popped nothing, and all of them are joined. The join
  returns if the schedule lets every worker take two steps. After \<^verbatim>\<open>Start()\<close> there is
  one worker for each thread handle, with the ids 0, 1, ...; however the workers are
  scheduled, the invokers are popped from the front of the queue, and the invokers that
  have been called or are in a worker's hands are those popped, each once. With one
  worker they are called in the order of the queue; with more workers the order of the
  calls is up to the scheduler. If there is a worker and the schedule lets every worker
  take two steps for each invoker, all the invokers that \<^verbatim>\<open>Stop()\<close> left are called.
  Without a thread handle they stay in the queue. All this holds of the closures of
  \<^verbatim>\<open>Stop\<close> and \<^verbatim>\<open>Start\<close> whoever calls them, in whatever reachable state (whatever
  the workers have done before the controller's worker comes to the closure, and whatever
  else the controller has to do).
\<close>

theorem Stop_leaves_the_invokers_to_Start:
  assumes "reachable executed (w, this)" and "Running this"
  shows
   "((case Controller this of None \<Rightarrow> True | Some c \<Rightarrow> serving c)
     \<and> and_then (Stop executed (sch, w, this)) (Controller_events executed sch_c)
         = Inr (sch1, w1, this1) \<and> idle this1 \<longrightarrow>
       InvokerQueue this1 = InvokerQueue this \<and> Empty this1 = Empty this \<and> \<not> Running this1
       \<and> Threads this1 = replicate (length (Threads this)) NotAThread
       \<and> mset w1 = mset w + mset (in_flight this)
       \<and> (\<exists>r. and_then (Start executed (sch1, w1, this1))
                 (Controller_events executed [Wakes 0, Runs 0, Runs 0]) = Inr r
               \<and> idle (snd (snd r)))
       \<and> (and_then (Start executed (sch1, w1, this1)) (Controller_events executed sch_c')
            = Inr (sch2, w2, this2) \<and> idle this2 \<longrightarrow>
            sch2 = sch1 \<and> w2 = w1 \<and> Running this2 \<and> InvokerQueue this2 = InvokerQueue this
            \<and> Threads this2 = map (\<lambda>p. ThreadWorker (int p)) [0 ..< length (Threads this)]
            \<and> (run_events executed sch3 (w2, this2) = Inr (w3, this3) \<longrightarrow>
                 (\<exists>k. InvokerQueue this3 = drop k (InvokerQueue this)
                      \<and> mset w3 + mset (in_flight this3)
                          = mset w2 + mset (take k (InvokerQueue this))
                      \<and> (length (Threads this) = 1 \<longrightarrow>
                           w3 @ in_flight this3 = w2 @ take k (InvokerQueue this)))
                 \<and> (Threads this \<noteq> []
                      \<and> (\<forall>p<length (Threads this).
                            2 * length (InvokerQueue this) \<le> count_list sch3 (Runs p)) \<longrightarrow>
                      InvokerQueue this3 = [] \<and> in_flight this3 = []
                      \<and> mset w3 = mset w2 + mset (InvokerQueue this))
                 \<and> (Threads this = [] \<longrightarrow> InvokerQueue this3 = InvokerQueue this \<and> w3 = w2))))
    \<and> ((case Controller this of None \<Rightarrow> True | Some c \<Rightarrow> serving c)
       \<and> (\<forall>p<length (Threads this). 2 \<le> count_list sch (Runs p)) \<longrightarrow>
         (\<exists>r. and_then (Stop executed (sch, w, this))
                 (Controller_events executed [Wakes 0, Runs 0, Runs 0]) = Inr r
               \<and> idle (snd (snd r))))
    \<and> (invoke executed StopLambda (sch, w, this) = Inr (schA, wA, thisA) \<longrightarrow>
         InvokerQueue thisA = InvokerQueue this \<and> Empty thisA = Empty this \<and> \<not> Running thisA
         \<and> Threads thisA = replicate (length (Threads this)) NotAThread
         \<and> mset wA = mset w + mset (in_flight this)
         \<and> invoke executed StartLambda (schA, wA, thisA)
             = Inr (schA, wA,
                 thisA\<lparr>Running := True,
                       Threads := map (\<lambda>p. ThreadWorker (int p)) [0 ..< length (Threads this)]\<rparr>)
         \<and> (run_events executed sch3
                (wA, thisA\<lparr>Running := True,
                       Threads := map (\<lambda>p. ThreadWorker (int p)) [0 ..< length (Threads this)]\<rparr>)
              = Inr (wC, thisC) \<longrightarrow>
              (\<exists>k. InvokerQueue thisC = drop k (InvokerQueue this)
                   \<and> mset wC + mset (in_flight thisC)
                       = mset wA + mset (take k (InvokerQueue this))
                   \<and> (length (Threads this) = 1 \<longrightarrow>
                        wC @ in_flight thisC = wA @ take k (InvokerQueue this)))
              \<and> (Threads this \<noteq> []
                   \<and> (\<forall>p<length (Threads this).
                         2 * length (InvokerQueue this) \<le> count_list sch3 (Runs p)) \<longrightarrow>
                   InvokerQueue thisC = [] \<and> in_flight thisC = [])
              \<and> (Threads this = [] \<longrightarrow> InvokerQueue thisC = InvokerQueue this \<and> wC = wA)))"
proof (intro conjI impI)
  assume "invoke executed StopLambda (sch, w, this) = Inr (schA, wA, thisA)"
  then have b: "Stop_body executed (sch, w, this) = Inr (schA, wA, thisA)" by simp
  note S = Stop_body_running [OF reachable_consistent [OF assms(1), simplified] assms(2) b]
  from S(1) show "InvokerQueue thisA = InvokerQueue this" .
  from S(2) show "Empty thisA = Empty this" .
  from S(3) show nr: "\<not> Running thisA" .
  from S(7) show t: "Threads thisA = replicate (length (Threads this)) NotAThread" .
  from S(8) show "mset wA = mset w + mset (in_flight this)" .
  have "list_all (\<lambda>t. \<not> joinable t) (Threads thisA)"
    by (simp add: t list_all_iff joinable_def)
  from Start_body_eq [OF nr this, of schA wA]
  show "invoke executed StartLambda (schA, wA, thisA)
             = Inr (schA, wA,
                 thisA\<lparr>Running := True,
                       Threads := map (\<lambda>p. ThreadWorker (int p)) [0 ..< length (Threads this)]\<rparr>)"
    by (simp add: t)
  {
    let ?B = "thisA\<lparr>Running := True,
                       Threads := map (\<lambda>p. ThreadWorker (int p)) [0 ..< length (Threads this)]\<rparr>"
    assume run: "run_events executed sch3 (wA, ?B) = Inr (wC, thisC)"
    from reachable_consistent [OF assms(1)] have c0: "consistent this" by simp
    have B: "Running ?B" "\<not> Destroying ?B"
      "Threads ?B = map (\<lambda>p. ThreadWorker (int p)) [0 ..< length (Threads this)]"
      "int (length (Threads this)) = NumberOfThreads ?B"
      "InvokerQueue ?B = InvokerQueue this"
      using S(1,4,5) c0 by (simp_all add: consistent_def)
    note R = started_run [OF B(1-4) run]
    from R(1) show "\<exists>k. InvokerQueue thisC = drop k (InvokerQueue this)
                   \<and> mset wC + mset (in_flight thisC)
                       = mset wA + mset (take k (InvokerQueue this))
                   \<and> (length (Threads this) = 1 \<longrightarrow>
                        wC @ in_flight thisC = wA @ take k (InvokerQueue this))"
      unfolding B(5) .
    from R(3) show "InvokerQueue thisC = InvokerQueue this" "wC = wA" if "Threads this = []"
      using that unfolding B(5) by simp_all
    {
      assume "Threads this \<noteq> []
                   \<and> (\<forall>p<length (Threads this).
                         2 * length (InvokerQueue this) \<le> count_list sch3 (Runs p))"
      with R(2) show "InvokerQueue thisC = []" "in_flight thisC = []"
        unfolding B(5) by simp_all
    }
  }
next
  assume "(case Controller this of None \<Rightarrow> True | Some c \<Rightarrow> serving c)
       \<and> (\<forall>p<length (Threads this). 2 \<le> count_list sch (Runs p))"
  then have ctl: "case Controller this of None \<Rightarrow> True | Some c \<Rightarrow> serving c"
    and fair: "\<forall>p<length (Threads this). 2 \<le> count_list sch (Runs p)" by simp_all
  have "\<exists>r. invoke executed StopLambda (sch, w, this\<lparr>Controller := x\<rparr>) = Inr r" for x
  proof -
    from reachable.outside [OF assms(1), of w x]
    have "reachable executed (w, this\<lparr>Controller := x\<rparr>)" .
    from reachable_consistent [OF this] have "consistent (this\<lparr>Controller := x\<rparr>)" by simp
    from Stop_body_returns [OF this, of sch w] assms(2) fair show ?thesis by simp
  qed
  from public_call_returns [OF ctl, of executed StopLambda sch w, OF this]
  show "\<exists>r. and_then (Stop executed (sch, w, this))
                 (Controller_events executed [Wakes 0, Runs 0, Runs 0]) = Inr r
               \<and> idle (snd (snd r))"
    by (simp add: Stop_def)
next
  assume a: "(case Controller this of None \<Rightarrow> True | Some c \<Rightarrow> serving c)
     \<and> and_then (Stop executed (sch, w, this)) (Controller_events executed sch_c)
         = Inr (sch1, w1, this1) \<and> idle this1"
  then have ctl: "case Controller this of None \<Rightarrow> True | Some c \<Rightarrow> serving c"
    and st: "and_then (Stop executed (sch, w, this)) (Controller_events executed sch_c)
       = Inr (sch1, w1, this1)" and idle: "idle this1" by simp_all
  note S = Stop_public [OF assms ctl st idle]
  from S(1) show q1: "InvokerQueue this1 = InvokerQueue this" .
  from S(2) show "Empty this1 = Empty this" .
  from S(3) show nr: "\<not> Running this1" .
  from S(4) show t1: "Threads this1 = replicate (length (Threads this)) NotAThread" .
  from S(5) show "mset w1 = mset w + mset (in_flight this)" .
  from reachable_consistent [OF S(7)] have c1: "consistent this1" by simp
  from reachable_consistent [OF assms(1)] have c0: "consistent this" by simp
  have "\<exists>r. invoke executed StartLambda (sch1, w1, this1\<lparr>Controller := x\<rparr>) = Inr r" for x
  proof -
    have "\<not> Running (this1\<lparr>Controller := x\<rparr>)" using nr by simp
    moreover have "list_all (\<lambda>t. \<not> joinable t) (Threads (this1\<lparr>Controller := x\<rparr>))"
      by (simp add: t1 list_all_iff joinable_def)
    ultimately show ?thesis using Start_body_eq [of "this1\<lparr>Controller := x\<rparr>" sch1 w1] by simp
  qed
  from public_call_returns [OF S(8), of executed StartLambda sch1 w1, OF this]
  show "\<exists>r. and_then (Start executed (sch1, w1, this1))
                 (Controller_events executed [Wakes 0, Runs 0, Runs 0]) = Inr r
               \<and> idle (snd (snd r))"
    by (simp add: Start_def)
  {
    assume b: "and_then (Start executed (sch1, w1, this1)) (Controller_events executed sch_c')
            = Inr (sch2, w2, this2) \<and> idle this2"
    then have st2: "and_then (Start executed (sch1, w1, this1)) (Controller_events executed sch_c')
            = Inr (sch2, w2, this2)" and idle2: "idle this2" by simp_all
    note T = Start_public [OF c1 nr S(8) st2 idle2]
    from T(1) show "sch2 = sch1" .
    from T(2) show "w2 = w1" .
    from T(3) show r2: "Running this2" .
    from T(5) q1 show q2: "InvokerQueue this2 = InvokerQueue this" by simp
    from T(7) t1 show t2: "Threads this2 = map (\<lambda>p. ThreadWorker (int p)) [0 ..< length (Threads this)]"
      by simp
    from T(6) S c0 c1 have n2: "int (length (Threads this)) = NumberOfThreads this2"
      by (simp add: consistent_def t1)
    {
      assume run: "run_events executed sch3 (w2, this2) = Inr (w3, this3)"
      note R = started_run [OF r2 T(4) t2 n2 run]
      from R(1) show "\<exists>k. InvokerQueue this3 = drop k (InvokerQueue this)
                      \<and> mset w3 + mset (in_flight this3)
                          = mset w2 + mset (take k (InvokerQueue this))
                      \<and> (length (Threads this) = 1 \<longrightarrow>
                           w3 @ in_flight this3 = w2 @ take k (InvokerQueue this))"
        by (simp add: q2)
      from R(3) show "InvokerQueue this3 = InvokerQueue this" "w3 = w2" if "Threads this = []"
        using that by (simp_all add: q2)
      {
        assume f: "Threads this \<noteq> []
                      \<and> (\<forall>p<length (Threads this).
                            2 * length (InvokerQueue this) \<le> count_list sch3 (Runs p))"
        with R(2) show e: "InvokerQueue this3 = []" and i: "in_flight this3 = []"
          by (simp_all add: q2)
        have "in_flight this2 = []" by (simp add: in_flight_def t2 held_def comp_def)
        with run_events_conserves [OF run] e i q2
        show "mset w3 = mset w2 + mset (InvokerQueue this)"
          by simp
      }
    }
  }
qed


theorem Stop_leaves_the_invokers_to_Start_witness:
  "reachable executed ([] :: nat list,
     \<lparr>InvokerQueue = [7, 8], Empty = False, Destroying = False, Running = True,
      NumberOfThreads = 1, Threads = [ThreadWorker 0],
      Controller = Some
        \<lparr>InvokerQueue = [] :: command list, Empty = True, Destroying = False, Running = True,
         NumberOfThreads = 1, Threads = [InWait 0], Controller = None :: unit option\<rparr>\<rparr>)
   \<and> and_then
        (Stop executed ([Runs 0, Runs 0], [] :: nat list,
          \<lparr>InvokerQueue = [7, 8], Empty = False, Destroying = False, Running = True,
           NumberOfThreads = 1, Threads = [ThreadWorker 0],
           Controller = Some
             \<lparr>InvokerQueue = [], Empty = True, Destroying = False, Running = True,
              NumberOfThreads = 1, Threads = [InWait 0], Controller = None :: unit option\<rparr>\<rparr>))
        (Controller_events executed [Wakes 0, Runs 0, Runs 0])
     = Inr ([Runs 0], [],
          \<lparr>InvokerQueue = [7, 8], Empty = False, Destroying = False, Running = False,
           NumberOfThreads = 1, Threads = [NotAThread],
           Controller = Some
             \<lparr>InvokerQueue = [], Empty = True, Destroying = False, Running = True,
              NumberOfThreads = 1, Threads = [ThreadWorker 0], Controller = None\<rparr>\<rparr>)
   \<and> and_then
        (Start executed ([Runs 0], [] :: nat list,
          \<lparr>InvokerQueue = [7, 8], Empty = False, Destroying = False, Running = False,
           NumberOfThreads = 1, Threads = [NotAThread],
           Controller = Some
             \<lparr>InvokerQueue = [], Empty = True, Destroying = False, Running = True,
              NumberOfThreads = 1, Threads = [ThreadWorker 0], Controller = None :: unit option\<rparr>\<rparr>))
        (Controller_events executed [Wakes 0, Runs 0, Runs 0])
     = Inr ([Runs 0], [],
          \<lparr>InvokerQueue = [7, 8], Empty = False, Destroying = False, Running = True,
           NumberOfThreads = 1, Threads = [ThreadWorker 0],
           Controller = Some
             \<lparr>InvokerQueue = [], Empty = True, Destroying = False, Running = True,
              NumberOfThreads = 1, Threads = [ThreadWorker 0], Controller = None\<rparr>\<rparr>)
   \<and> run_events executed [Runs 0, Runs 0, Runs 0, Runs 0]
        ([] :: nat list,
          \<lparr>InvokerQueue = [7, 8], Empty = False, Destroying = False, Running = True,
           NumberOfThreads = 1, Threads = [ThreadWorker 0],
           Controller = Some
             \<lparr>InvokerQueue = [] :: command list, Empty = True, Destroying = False, Running = True,
              NumberOfThreads = 1, Threads = [ThreadWorker 0], Controller = None :: unit option\<rparr>\<rparr>)
     = Inr ([7, 8],
          \<lparr>InvokerQueue = [], Empty = True, Destroying = False, Running = True,
           NumberOfThreads = 1, Threads = [ThreadWorker 0],
           Controller = Some
             \<lparr>InvokerQueue = [], Empty = True, Destroying = False, Running = True,
              NumberOfThreads = 1, Threads = [ThreadWorker 0], Controller = None\<rparr>\<rparr>)
   \<and> mset [7, 8 :: nat] = mset ([] :: nat list) + mset [7, 8]
   \<and> (\<exists>r. and_then
        (Stop executed ([Runs 0, Runs 0], [] :: nat list,
          \<lparr>InvokerQueue = [7, 8], Empty = False, Destroying = False, Running = True,
           NumberOfThreads = 1, Threads = [ThreadWorker 0],
           Controller = Some
             \<lparr>InvokerQueue = [], Empty = True, Destroying = False, Running = True,
              NumberOfThreads = 1, Threads = [InWait 0], Controller = None :: unit option\<rparr>\<rparr>))
        (Controller_events executed [Wakes 0, Runs 0, Runs 0]) = Inr r
        \<and> idle (snd (snd r)))
   \<and> invoke executed StartLambda ([Runs 0], [] :: nat list,
          \<lparr>InvokerQueue = [7, 8], Empty = False, Destroying = False, Running = False,
           NumberOfThreads = 1, Threads = [NotAThread],
           Controller = Some
             \<lparr>InvokerQueue = [] :: command list, Empty = True, Destroying = False, Running = True,
              NumberOfThreads = 1, Threads = [InWait 0], Controller = None :: unit option\<rparr>\<rparr>)
     = Inr ([Runs 0], [],
          \<lparr>InvokerQueue = [7, 8], Empty = False, Destroying = False, Running = True,
           NumberOfThreads = 1, Threads = [ThreadWorker 0],
           Controller = Some
             \<lparr>InvokerQueue = [], Empty = True, Destroying = False, Running = True,
              NumberOfThreads = 1, Threads = [InWait 0], Controller = None\<rparr>\<rparr>)"
proof -
  let ?c = "\<lparr>InvokerQueue = [] :: command list, Empty = True, Destroying = False, Running = True,
         NumberOfThreads = 1, Threads = [InWait 0], Controller = None :: unit option\<rparr>"
  let ?c' = "\<lparr>InvokerQueue = [] :: command list, Empty = True, Destroying = False, Running = True,
         NumberOfThreads = 1, Threads = [ThreadWorker 0], Controller = None :: unit option\<rparr>"
  let ?q = "\<lparr>InvokerQueue = [7, 8 :: nat], Empty = False, Destroying = False, Running = True,
      NumberOfThreads = 1, Threads = [ThreadWorker 0], Controller = Some ?c\<rparr>"
  let ?q1 = "\<lparr>InvokerQueue = [7, 8 :: nat], Empty = False, Destroying = False, Running = False,
      NumberOfThreads = 1, Threads = [NotAThread], Controller = Some ?c'\<rparr>"
  let ?q2 = "\<lparr>InvokerQueue = [7, 8 :: nat], Empty = False, Destroying = False, Running = True,
      NumberOfThreads = 1, Threads = [ThreadWorker 0], Controller = Some ?c'\<rparr>"
  let ?q3 = "\<lparr>InvokerQueue = [] :: nat list, Empty = True, Destroying = False, Running = True,
      NumberOfThreads = 1, Threads = [ThreadWorker 0], Controller = Some ?c'\<rparr>"
  let ?qA = "\<lparr>InvokerQueue = [7, 8 :: nat], Empty = False, Destroying = False, Running = False,
      NumberOfThreads = 1, Threads = [NotAThread], Controller = Some ?c\<rparr>"
  let ?qB = "\<lparr>InvokerQueue = [7, 8 :: nat], Empty = False, Destroying = False, Running = True,
      NumberOfThreads = 1, Threads = [ThreadWorker 0], Controller = Some ?c\<rparr>"
  let ?qC = "\<lparr>InvokerQueue = [] :: nat list, Empty = True, Destroying = False, Running = True,
      NumberOfThreads = 1, Threads = [ThreadWorker 0], Controller = Some ?c\<rparr>"
  have r0: "reachable executed ([] :: nat list,
      vtkThreadedCallbackQueue_init (Some ?c) :: (nat, (command, unit) vtkThreadedCallbackQueue) vtkThreadedCallbackQueue)"
    by (rule reachable.constructed)
  have "invoke executed StartLambda ([], [] :: nat list,
      vtkThreadedCallbackQueue_init (Some ?c) :: (nat, (command, unit) vtkThreadedCallbackQueue) vtkThreadedCallbackQueue)
      = Inr ([], [], \<lparr>InvokerQueue = [], Empty = True, Destroying = False, Running = True,
      NumberOfThreads = 1, Threads = [ThreadWorker 0], Controller = Some ?c\<rparr>)"
    by (simp add: Start_body_def vtkThreadedCallbackQueue_init_def joinable_def)
  from reachable.invoked [OF r0 this]
  have "reachable executed ([] :: nat list,
      \<lparr>InvokerQueue = [] :: nat list, Empty = True, Destroying = False, Running = True,
      NumberOfThreads = 1, Threads = [ThreadWorker 0], Controller = Some ?c\<rparr>)" .
  from reachable.pushed [OF reachable.pushed [OF this, of 7], of 8]
  have r: "reachable executed ([], ?q)" by (simp add: Push_def)
  have run: "Running ?q" by simp
  have ctl: "case Controller ?q of None \<Rightarrow> True | Some c \<Rightarrow> serving c"
    by (simp add: serving_def)
  have st: "and_then (Stop executed ([Runs 0, Runs 0], [], ?q))
              (Controller_events executed [Wakes 0, Runs 0, Runs 0])
            = Inr ([Runs 0], [], ?q1)"
    by (simp add: and_then_def Stop_def Execute_def Push_def Controller_events_def
        event_step_def worker_step_def wake_def OnHold_def Continue_def
        Stop_body_def Sync_default_startId_def Sync_def notify_all_def join_Finished)
  have i1: "idle ?q1" by (simp add: idle_def in_flight_def held_def)
  have st2: "and_then (Start executed ([Runs 0], [], ?q1))
              (Controller_events executed [Wakes 0, Runs 0, Runs 0])
            = Inr ([Runs 0], [], ?q2)"
    by (simp add: and_then_def Start_def Execute_def Push_def Controller_events_def
        event_step_def worker_step_def wake_def OnHold_def Continue_def
        Start_body_def joinable_def)
  have i2: "idle ?q2" by (simp add: idle_def in_flight_def held_def)
  have ev: "run_events executed [Runs 0, Runs 0, Runs 0, Runs 0] ([], ?q2) = Inr ([7, 8], ?q3)"
    by (simp add: event_step_def worker_step_def OnHold_def Continue_def executed_def)
  have cl: "invoke executed StopLambda ([Runs 0, Runs 0], [], ?q) = Inr ([Runs 0], [], ?qA)"
    by (simp add: event_step_def worker_step_def wake_def OnHold_def Continue_def
        Stop_body_def Sync_default_startId_def Sync_def notify_all_def join_Finished)
  note T = Stop_leaves_the_invokers_to_Start [OF r run,
      where sch = "[Runs 0, Runs 0]" and sch_c = "[Wakes 0, Runs 0, Runs 0]"
        and ?sch1.0 = "[Runs 0]" and ?w1.0 = "[]" and ?this1.0 = ?q1
        and sch_c' = "[Wakes 0, Runs 0, Runs 0]"
        and ?sch2.0 = "[Runs 0]" and ?w2.0 = "[]" and ?this2.0 = ?q2
        and ?sch3.0 = "[Runs 0, Runs 0, Runs 0, Runs 0]" and ?w3.0 = "[7, 8]" and ?this3.0 = ?q3
        and schA = "[Runs 0]" and wA = "[]" and thisA = ?qA
        and wC = "[7, 8]" and thisC = ?qC]
  from T [THEN conjunct1] ctl st i1 st2 i2 ev
  have 1: "mset [7, 8 :: nat] = mset ([] :: nat list) + mset [7, 8]" by simp
  from T [THEN conjunct2, THEN conjunct1] ctl
  have 2: "\<exists>r. and_then (Stop executed ([Runs 0, Runs 0], [], ?q))
              (Controller_events executed [Wakes 0, Runs 0, Runs 0]) = Inr r
            \<and> idle (snd (snd r))"
    by simp
  from T [THEN conjunct2, THEN conjunct2] cl
  have 3: "invoke executed StartLambda ([Runs 0], [], ?qA) = Inr ([Runs 0], [], ?qB)"
    by simp
  show ?thesis by (intro conjI r st st2 ev 1 2 3)
qed

theorem Stop_Start_counterexample:
  "reachable executed ([] :: nat list,
        \<lparr>InvokerQueue = [7, 8], Empty = False, Destroying = False, Running = True,
         NumberOfThreads = 2, Threads = [ThreadWorker 0, ThreadWorker 1],
         Controller = None :: (command, unit) vtkThreadedCallbackQueue option\<rparr>)
   \<and> Stop executed ([Runs 0, Runs 1], [] :: nat list,
        \<lparr>InvokerQueue = [7, 8], Empty = False, Destroying = False, Running = True,
         NumberOfThreads = 2, Threads = [ThreadWorker 0, ThreadWorker 1],
         Controller = None :: (command, unit) vtkThreadedCallbackQueue option\<rparr>)
     = Inr ([], [],
        \<lparr>InvokerQueue = [7, 8], Empty = False, Destroying = False, Running = False,
         NumberOfThreads = 2, Threads = [NotAThread, NotAThread], Controller = None\<rparr>)
   \<and> Start executed ([], [] :: nat list,
        \<lparr>InvokerQueue = [7, 8], Empty = False, Destroying = False, Running = False,
         NumberOfThreads = 2, Threads = [NotAThread, NotAThread],
         Controller = None :: (command, unit) vtkThreadedCallbackQueue option\<rparr>)
     = Inr ([], [],
        \<lparr>InvokerQueue = [7, 8], Empty = False, Destroying = False, Running = True,
         NumberOfThreads = 2, Threads = [ThreadWorker 0, ThreadWorker 1], Controller = None\<rparr>)
   \<and> run_events executed [Runs 0, Runs 1, Runs 1, Runs 0]
       ([] :: nat list,
        \<lparr>InvokerQueue = [7, 8], Empty = False, Destroying = False, Running = True,
         NumberOfThreads = 2, Threads = [ThreadWorker 0, ThreadWorker 1],
         Controller = None :: (command, unit) vtkThreadedCallbackQueue option\<rparr>)
     = Inr ([8, 7],
        \<lparr>InvokerQueue = [], Empty = True, Destroying = False, Running = True,
         NumberOfThreads = 2, Threads = [ThreadWorker 0, ThreadWorker 1], Controller = None\<rparr>)
   \<and> Stop executed ([], [] :: nat list,
        \<lparr>InvokerQueue = [7, 8], Empty = False, Destroying = False, Running = True,
         NumberOfThreads = 0, Threads = [],
         Controller = None :: (command, unit) vtkThreadedCallbackQueue option\<rparr>)
     = Inr ([], [],
        \<lparr>InvokerQueue = [7, 8], Empty = False, Destroying = False, Running = False,
         NumberOfThreads = 0, Threads = [], Controller = None\<rparr>)
   \<and> Start executed ([], [] :: nat list,
        \<lparr>InvokerQueue = [7, 8], Empty = False, Destroying = False, Running = False,
         NumberOfThreads = 0, Threads = [],
         Controller = None :: (command, unit) vtkThreadedCallbackQueue option\<rparr>)
     = Inr ([], [],
        \<lparr>InvokerQueue = [7, 8], Empty = False, Destroying = False, Running = True,
         NumberOfThreads = 0, Threads = [], Controller = None\<rparr>)
   \<and> run_events executed [Runs 0, Wakes 0, Runs 0, Runs 1]
       ([] :: nat list,
        \<lparr>InvokerQueue = [7, 8], Empty = False, Destroying = False, Running = True,
         NumberOfThreads = 0, Threads = [],
         Controller = None :: (command, unit) vtkThreadedCallbackQueue option\<rparr>)
     = Inr ([],
        \<lparr>InvokerQueue = [7, 8], Empty = False, Destroying = False, Running = True,
         NumberOfThreads = 0, Threads = [], Controller = None\<rparr>)"
proof -
  have i: "vtkThreadedCallbackQueue_init None
       = \<lparr>InvokerQueue = [] :: nat list, Empty = True, Destroying = False, Running = False,
         NumberOfThreads = 1, Threads = [NotAThread],
         Controller = None :: (command, unit) vtkThreadedCallbackQueue option\<rparr>"
    by (simp add: vtkThreadedCallbackQueue_init_def)
  have a: "invoke executed (SetNumberOfThreadsLambda 2) ([], [] :: nat list,
        \<lparr>InvokerQueue = [] :: nat list, Empty = True, Destroying = False, Running = False,
         NumberOfThreads = 1, Threads = [NotAThread],
         Controller = None :: (command, unit) vtkThreadedCallbackQueue option\<rparr>)
       = Inr ([], [], \<lparr>InvokerQueue = [], Empty = True, Destroying = False, Running = False,
         NumberOfThreads = 2, Threads = [NotAThread, NotAThread], Controller = None\<rparr>)"
    by (simp add: SetNumberOfThreads_body_def resize_def joinable_def)
  have b: "invoke executed StartLambda ([], [] :: nat list,
        \<lparr>InvokerQueue = [] :: nat list, Empty = True, Destroying = False, Running = False,
         NumberOfThreads = 2, Threads = [NotAThread, NotAThread],
         Controller = None :: (command, unit) vtkThreadedCallbackQueue option\<rparr>)
       = Inr ([], [], \<lparr>InvokerQueue = [], Empty = True, Destroying = False, Running = True,
         NumberOfThreads = 2, Threads = [ThreadWorker 0, ThreadWorker 1], Controller = None\<rparr>)"
    by (simp add: Start_body_def joinable_def)
  have "reachable executed ([] :: nat list,
        vtkThreadedCallbackQueue_init (None :: (command, unit) vtkThreadedCallbackQueue option)
          :: (nat, (command, unit) vtkThreadedCallbackQueue) vtkThreadedCallbackQueue)"
    by (rule reachable.constructed)
  from reachable.invoked [OF reachable.invoked [OF this [unfolded i] a] b]
  have "reachable executed ([] :: nat list,
        \<lparr>InvokerQueue = [] :: nat list, Empty = True, Destroying = False, Running = True,
         NumberOfThreads = 2, Threads = [ThreadWorker 0, ThreadWorker 1],
         Controller = None :: (command, unit) vtkThreadedCallbackQueue option\<rparr>)" .
  from reachable.pushed [OF reachable.pushed [OF this, of 7], of 8]
  have r: "reachable executed ([] :: nat list,
        \<lparr>InvokerQueue = [7, 8], Empty = False, Destroying = False, Running = True,
         NumberOfThreads = 2, Threads = [ThreadWorker 0, ThreadWorker 1],
         Controller = None :: (command, unit) vtkThreadedCallbackQueue option\<rparr>)"
    by (simp add: Push_def)
  show ?thesis
    by (intro conjI r)
      (simp_all add: Stop_def Start_def Execute_def Stop_body_def Start_body_def
        Sync_default_startId_def Sync_def notify_all_def wake_def join_Finished joinable_def
        event_step_def worker_step_def OnHold_def Continue_def executed_def)
qed


section \<open>What SetNumberOfThreads does where the ids are right\<close>

text \<open>
  Growing a running queue from \<open>old_size\<close> thread handles to \<open>n\<close> returns at once: it
  sets the desired count, leaves the \<open>old_size\<close> handles as they are and appends
  \<open>n - old_size\<close> new workers; the worker appended at position \<open>p\<close> has the id \<open>p - 1\<close>.
  The flags, the invokers, the world and the schedule are not touched.
\<close>

theorem grow_spawns:
  assumes "Running this" and "int (length (Threads this)) < n"
  shows "\<exists>new. SetNumberOfThreads_body call n (sch, w, this) =
             Inr (sch, w, this\<lparr>NumberOfThreads := n, Threads := Threads this @ new\<rparr>)
     \<and> int (length new) = n - int (length (Threads this))
     \<and> new = map (\<lambda>p. ThreadWorker (int p - 1)) [length (Threads this) ..< nat n]"
  using SetNumberOfThreads_body_grow [OF assms, of call sch w] assms(2) by simp

theorem grow_spawns_witness:
  "SetNumberOfThreads_body executed 3
     ([Runs 0], [] :: nat list,
      \<lparr>InvokerQueue = [7 :: nat], Empty = False, Destroying = False, Running = True,
       NumberOfThreads = 1, Threads = [ThreadWorker 0], Controller = None :: unit option\<rparr>)
   = Inr ([Runs 0], [],
      \<lparr>InvokerQueue = [7], Empty = False, Destroying = False, Running = True,
       NumberOfThreads = 3, Threads = [ThreadWorker 0, ThreadWorker 0, ThreadWorker 1],
       Controller = None\<rparr>)"
  using grow_spawns [of
      "\<lparr>InvokerQueue = [7 :: nat], Empty = False, Destroying = False, Running = True,
       NumberOfThreads = 1, Threads = [ThreadWorker 0], Controller = None :: unit option\<rparr>"
      3 executed "[Runs 0]" "[] :: nat list"]
  by (simp add: upt_rec [of "Suc 0"] upt_rec [of 2] numeral_3_eq_3)

lemma event_step_at_post:
  assumes e: "event_step call e (w, s) = Inr (w', s')"
    and s: "Running s" "\<not> Destroying s" "int q < NumberOfThreads s"
    and q: "q < length (Threads s)" "at_post q (Threads s ! q)"
  shows "at_post q (Threads s' ! q)"
  using e
proof (cases rule: event_step_cases)
  case idle then show ?thesis using q by simp
next
  case (hold p j) then show ?thesis using q by (cases "p = q") (auto simp: at_post_def)
next
  case (leave p j)
  show ?thesis
  proof (cases "p = q")
    case True
    with leave q have "j = int q" by (auto simp: at_post_def)
    with s leave(4,5) have False by (auto simp: OnHold_def Continue_def)
    then show ?thesis ..
  next
    case False
    with leave q show ?thesis by auto
  qed
next
  case (pop p j) then show ?thesis using q by (cases "p = q") (auto simp: at_post_def)
next
  case (call p j x) then show ?thesis using q by (cases "p = q") (auto simp: at_post_def)
next
  case (woken p j) then show ?thesis using q by (cases "p = q") (auto simp: at_post_def)
qed

lemma run_events_at_post:
  assumes "run_events call sch (w, s) = Inr (w', s')"
    and "Running s" "\<not> Destroying s" "int q < NumberOfThreads s"
    and "q < length (Threads s)" "at_post q (Threads s ! q)"
  shows "at_post q (Threads s' ! q)"
  using assms
proof (induction sch arbitrary: w s)
  case Nil
  then show ?case by simp
next
  case (Cons e sch)
  from Cons.prems(1) obtain w1 s1 where e: "event_step call e (w, s) = Inr (w1, s1)"
    and r: "run_events call sch (w1, s1) = Inr (w', s')"
    by (auto split: sum.splits)
  note f = event_step_frame [OF e]
  from event_step_at_post [OF e Cons.prems(2-6)] have "at_post q (Threads s1 ! q)" .
  with Cons.IH [OF r] f Cons.prems(2-5) show ?case by simp
qed

lemma Sync_returns_from:
  assumes "\<forall>x w. \<exists>w'. call x w = Inr w'"
    and "0 \<le> k" "k \<le> int (length (Threads s))"
    and "\<forall>p<length (Threads s). nat k \<le> p \<longrightarrow> leaving s (Threads s ! p)
           \<and> steps_left s (Threads s ! p) \<le> count_list sch (Runs p)"
  shows "\<exists>r. Sync call k (sch, w, s) = Inr r"
proof -
  from assms(4) have "\<forall>p\<in>set [nat k ..< length (Threads s)]. p < length (Threads s)
           \<and> leaving s (Threads s ! p)
           \<and> steps_left s (Threads s ! p) \<le> count_list sch (Runs p)"
    by simp
  from for_each_join_returns [OF assms(1) this, of w] obtain r
    where "for_each_join call [nat k ..< length (Threads s)] (sch, w, s) = Inr r" by blast
  with assms(2,3) show ?thesis by (cases r) (simp add: Sync_def)
qed

lemma SetNumberOfThreads_body_flags:
  assumes b: "SetNumberOfThreads_body call n (sch, w, s) = Inr (sch', w', s')"
  shows "Running s' = Running s \<and> Destroying s' = Destroying s"
proof -
  consider (same) "int (length (Threads s)) = n"
    | (stopped) "int (length (Threads s)) \<noteq> n" "\<not> Running s"
    | (grow) "int (length (Threads s)) < n" "Running s"
    | (shrink) "n < int (length (Threads s))" "Running s"
    by (cases "Running s"; cases "int (length (Threads s))" n rule: linorder_cases) auto
  then show ?thesis
  proof cases
    case same
    with b show ?thesis by (simp add: SetNumberOfThreads_body_same)
  next
    case stopped
    from SetNumberOfThreads_body_stopped [OF stopped(2,1) b] show ?thesis by simp
  next
    case grow
    from SetNumberOfThreads_body_grow [OF grow(2,1), of call sch w] b show ?thesis by auto
  next
    case shrink
    from SetNumberOfThreads_body_shrink_Inr [OF shrink(2,1) b] obtain xs s1 where
      r: "run_events call xs (w, notify_all (s\<lparr>NumberOfThreads := n\<rparr>)) = Inr (w', s1)"
      and s': "s' = s1\<lparr>Threads := take (nat n) (Threads s1)\<rparr>"
      by blast
    from run_events_frame [OF r] show ?thesis by (simp add: s')
  qed
qed

text \<open>
  Shrinking a running queue whose workers have their positions as ids (as \<^verbatim>\<open>Start\<close>
  leaves them) from \<open>K\<close> threads to \<open>n\<close>, \<open>0 \<le> n < K\<close>: if the schedule lets each of
  the workers at the positions from \<open>n\<close> on take two steps, the call returns; the threads
  it has joined, those at the positions from \<open>n\<close> on, are the workers with an id of at
  least \<open>n\<close>; the desired count is \<open>n\<close>, the first \<open>n\<close> workers are left at work, the flags
  are as they were, and every invoker has been called once or is still in the queue or
  in a worker's hands.
\<close>

theorem shrink_joins_the_highest_ids:
  assumes "Running this" and "\<not> Destroying this"
    and "0 \<le> n" and "n < int (length (Threads this))"
    and "\<forall>p<length (Threads this). at_post p (Threads this ! p)"
    and "\<forall>p<length (Threads this). nat n \<le> p \<longrightarrow> 2 \<le> count_list sch (Runs p)"
  shows "\<exists>sch' w' this'.
           SetNumberOfThreads_body executed n (sch, w, this) = Inr (sch', w', this')
         \<and> NumberOfThreads this' = n \<and> length (Threads this') = nat n
         \<and> (\<forall>p<nat n. at_post p (Threads this' ! p))
         \<and> Running this' \<and> \<not> Destroying this' \<and> Controller this' = Controller this
         \<and> mset w' + mset (in_flight this') + mset (InvokerQueue this')
             = mset w + mset (in_flight this) + mset (InvokerQueue this)
         \<and> (\<exists>k. InvokerQueue this' = drop k (InvokerQueue this))"
proof -
  let ?s = "notify_all (this\<lparr>NumberOfThreads := n\<rparr>)"
  have w: "at_post p (wake (Threads this ! p))" if "p < length (Threads this)" for p
    using assms(5) that by (cases "Threads this ! p") (auto simp: at_post_def wake_def)
  have "\<forall>p<length (Threads ?s). nat (NumberOfThreads ?s) \<le> p \<longrightarrow> leaving ?s (Threads ?s ! p)
           \<and> steps_left ?s (Threads ?s ! p) \<le> count_list sch (Runs p)"
  proof (intro allI impI)
    fix p assume "p < length (Threads ?s)" "nat (NumberOfThreads ?s) \<le> p"
    then have p: "p < length (Threads this)" "nat n \<le> p" by simp_all
    with assms(3) have np: "\<not> int p < n" by simp
    from assms(6) p have c: "2 \<le> count_list sch (Runs p)" by simp
    have "wake (Threads this ! p) \<noteq> InWait i" for i
      by (cases "Threads this ! p") (simp_all add: wake_def)
    with w [OF p(1)] np p(1) c
    show "leaving ?s (Threads ?s ! p) \<and> steps_left ?s (Threads ?s ! p) \<le> count_list sch (Runs p)"
      by (cases "wake (Threads this ! p)")
        (auto simp: at_post_def leaving_def steps_left_def on_duty_def load_def)
  qed
  from Sync_returns_from [OF executed_total _ _ this, of w] assms(3,4)
  obtain sch' w' s2 where y: "Sync executed n (sch, w, ?s) = Inr (sch', w', s2)"
    by (auto simp: less_imp_le)
  from Sync_Inr [OF y] obtain xs s1 where
    r: "run_events executed xs (w, ?s) = Inr (w', s1)"
    and s2: "s2 = s1\<lparr>Threads := take (nat n) (Threads s1)
                  @ map (\<lambda>t. NotAThread) (drop (nat n) (Threads s1))\<rparr>"
    by auto
  note f = run_events_frame [OF r]
  from f assms(3,4) have l: "nat n \<le> length (Threads s1)" by simp
  then have "resize n (Threads s2) = Inr (take (nat n) (Threads s1))"
    using assms(3) by (simp add: s2 resize_def list_ex_iff joinable_def)
  with y assms(1,4)
  have b: "SetNumberOfThreads_body executed n (sch, w, this)
         = Inr (sch', w', s2\<lparr>Threads := take (nat n) (Threads s1)\<rparr>)"
    by (simp add: SetNumberOfThreads_body_def notify_all_def)
  let ?t = "s2\<lparr>Threads := take (nat n) (Threads s1)\<rparr>"
  have "at_post p (Threads ?t ! p)" if "p < nat n" for p
  proof -
    have "at_post p (Threads s1 ! p)"
    proof (rule run_events_at_post [OF r])
      show "Running ?s" using assms(1) by simp
      show "\<not> Destroying ?s" using assms(2) by simp
      show "int p < NumberOfThreads ?s" using that by simp
      show "p < length (Threads ?s)" using that assms(4) by simp
      show "at_post p (Threads ?s ! p)" using that assms(4) w [of p] by simp
    qed
    with that show ?thesis by simp
  qed
  moreover have "NumberOfThreads ?t = n" "length (Threads ?t) = nat n"
    "Running ?t" "\<not> Destroying ?t" "Controller ?t = Controller this"
    using f l assms(1,2) by (simp_all add: s2)
  moreover note SetNumberOfThreads_body_conserves [OF b]
  ultimately show ?thesis using b by blast
qed

theorem shrink_joins_the_highest_ids_witness:
  "SetNumberOfThreads_body executed 1
     ([Runs 1, Runs 1], [] :: nat list,
      \<lparr>InvokerQueue = [7 :: nat], Empty = False, Destroying = False, Running = True,
       NumberOfThreads = 2, Threads = [ThreadWorker 0, InWait 1],
       Controller = None :: unit option\<rparr>)
   = Inr ([Runs 1], [],
      \<lparr>InvokerQueue = [7], Empty = False, Destroying = False, Running = True,
       NumberOfThreads = 1, Threads = [ThreadWorker 0], Controller = None\<rparr>)
   \<and> (\<exists>sch' w' this'.
         SetNumberOfThreads_body executed 1
           ([Runs 1, Runs 1], [] :: nat list,
            \<lparr>InvokerQueue = [7 :: nat], Empty = False, Destroying = False, Running = True,
             NumberOfThreads = 2, Threads = [ThreadWorker 0, InWait 1],
             Controller = None :: unit option\<rparr>) = Inr (sch', w', this')
         \<and> NumberOfThreads this' = 1 \<and> length (Threads this') = 1)"
proof -
  let ?q = "\<lparr>InvokerQueue = [7 :: nat], Empty = False, Destroying = False, Running = True,
       NumberOfThreads = 2, Threads = [ThreadWorker 0, InWait 1],
       Controller = None :: unit option\<rparr>"
  have e: "SetNumberOfThreads_body executed 1 ([Runs 1, Runs 1], [], ?q)
   = Inr ([Runs 1], [],
      \<lparr>InvokerQueue = [7], Empty = False, Destroying = False, Running = True,
       NumberOfThreads = 1, Threads = [ThreadWorker 0], Controller = None\<rparr>)"
    by (simp add: SetNumberOfThreads_body_def Sync_def notify_all_def wake_def event_step_def
        worker_step_def OnHold_def Continue_def join_Finished resize_def joinable_def)
  have h5: "\<forall>p<length (Threads ?q). at_post p (Threads ?q ! p)"
    by (simp add: at_post_def less_Suc_eq)
  have h6: "\<forall>p<length (Threads ?q). nat 1 \<le> p \<longrightarrow> 2 \<le> count_list [Runs 1, Runs 1] (Runs p)"
    by (simp add: less_Suc_eq)
  have "Running ?q" "\<not> Destroying ?q" "(0 :: int) \<le> 1" "1 < int (length (Threads ?q))"
    by simp_all
  from shrink_joins_the_highest_ids [OF this h5 h6, of "[]"]
  obtain sch' w' this' where
    "SetNumberOfThreads_body executed 1 ([Runs 1, Runs 1], [], ?q) = Inr (sch', w', this')"
    "NumberOfThreads this' = 1" "length (Threads this') = nat 1"
    by blast
  then have "\<exists>sch' w' this'.
         SetNumberOfThreads_body executed 1 ([Runs 1, Runs 1], [], ?q) = Inr (sch', w', this')
         \<and> NumberOfThreads this' = 1 \<and> length (Threads this') = 1"
    by auto
  with e show ?thesis by (intro conjI)
qed

text \<open>
  In every reachable state, whenever the closure of \<^verbatim>\<open>SetNumberOfThreads(n)\<close> returns,
  \<open>n\<close> was not negative, the desired count and the number of thread handles are \<open>n\<close>,
  the flags \<^verbatim>\<open>Running\<close> and \<^verbatim>\<open>Destroying\<close> and the controller are as they were, and
  no invoker is lost or called twice: if the workers have popped invokers meanwhile, these
  are the first of the queue, and each has been called or is in a worker's hands.
\<close>

theorem SetNumberOfThreads_frame:
  assumes "reachable executed (w, this)"
    and "SetNumberOfThreads_body executed n (sch, w, this) = Inr (sch', w', this')"
  shows "0 \<le> n \<and> NumberOfThreads this' = n \<and> int (length (Threads this')) = n
       \<and> Running this' = Running this \<and> Destroying this' = Destroying this
       \<and> Controller this' = Controller this
       \<and> Empty this' = (InvokerQueue this' = [])
       \<and> mset w' + mset (in_flight this') + mset (InvokerQueue this')
           = mset w + mset (in_flight this) + mset (InvokerQueue this)
       \<and> (\<exists>k. InvokerQueue this' = drop k (InvokerQueue this))"
proof -
  from reachable_consistent [OF assms(1)] have c: "consistent this" by simp
  from consistent_SetNumberOfThreads_body [OF c assms(2)] have c': "consistent this'" .
  have i: "invoke executed (SetNumberOfThreadsLambda n) (sch, w, this) = Inr (sch', w', this')"
    using assms(2) by simp
  have n: "NumberOfThreads this' = n"
  proof (cases "int (length (Threads this)) = n")
    case True
    with assms(2) c show ?thesis by (simp add: SetNumberOfThreads_body_same consistent_def)
  next
    case False
    consider (stopped) "\<not> Running this"
      | (grow) "int (length (Threads this)) < n" "Running this"
      | (shrink) "n < int (length (Threads this))" "Running this"
      using False by (cases "Running this"; cases "int (length (Threads this))" n rule: linorder_cases) auto
    then show ?thesis
    proof cases
      case stopped
      from SetNumberOfThreads_body_stopped [OF stopped False assms(2)] show ?thesis by simp
    next
      case grow
      from SetNumberOfThreads_body_grow [OF grow(2,1), of executed sch w] assms(2)
      show ?thesis by auto
    next
      case shrink
      from SetNumberOfThreads_body_shrink_Inr [OF shrink(2,1) assms(2)] obtain xs s1 where
        r: "run_events executed xs (w, notify_all (this\<lparr>NumberOfThreads := n\<rparr>)) = Inr (w', s1)"
        and s': "this' = s1\<lparr>Threads := take (nat n) (Threads s1)\<rparr>"
        by blast
      from run_events_frame [OF r] show ?thesis by (simp add: s')
    qed
  qed
  from c' n have "int (length (Threads this')) = n" "Empty this' = (InvokerQueue this' = [])"
    by (simp_all add: consistent_def)
  moreover from this(1) have "0 \<le> n" by linarith
  moreover note n SetNumberOfThreads_body_flags [OF assms(2)] invoke_Controller [OF i]
    SetNumberOfThreads_body_conserves [OF assms(2)]
  ultimately show ?thesis by simp
qed

theorem SetNumberOfThreads_frame_witness:
  "reachable executed ([] :: nat list,
     \<lparr>InvokerQueue = [7 :: nat], Empty = False, Destroying = False, Running = True,
      NumberOfThreads = 1, Threads = [ThreadWorker 0], Controller = None :: unit option\<rparr>)
   \<and> SetNumberOfThreads_body executed 0
       ([Runs 0, Runs 0, Runs 0], [] :: nat list,
        \<lparr>InvokerQueue = [7 :: nat], Empty = False, Destroying = False, Running = True,
         NumberOfThreads = 1, Threads = [ThreadWorker 0], Controller = None :: unit option\<rparr>)
     = Inr ([Runs 0, Runs 0], [],
        \<lparr>InvokerQueue = [7], Empty = False, Destroying = False, Running = True,
         NumberOfThreads = 0, Threads = [], Controller = None\<rparr>)
   \<and> mset ([] :: nat list) + mset ([] :: nat list) + mset [7 :: nat]
       = mset [] + mset [] + mset [7]"
proof -
  let ?q = "\<lparr>InvokerQueue = [7 :: nat], Empty = False, Destroying = False, Running = True,
      NumberOfThreads = 1, Threads = [ThreadWorker 0], Controller = None :: unit option\<rparr>"
  have r0: "reachable executed ([] :: nat list,
      vtkThreadedCallbackQueue_init (None :: unit option) :: (nat, unit) vtkThreadedCallbackQueue)"
    by (rule reachable.constructed)
  have "invoke executed StartLambda ([], [] :: nat list,
      vtkThreadedCallbackQueue_init (None :: unit option) :: (nat, unit) vtkThreadedCallbackQueue)
      = Inr ([], [], \<lparr>InvokerQueue = [], Empty = True, Destroying = False, Running = True,
      NumberOfThreads = 1, Threads = [ThreadWorker 0], Controller = None\<rparr>)"
    by (simp add: Start_body_def vtkThreadedCallbackQueue_init_def joinable_def)
  from reachable.invoked [OF r0 this]
  have "reachable executed ([] :: nat list,
      \<lparr>InvokerQueue = [] :: nat list, Empty = True, Destroying = False, Running = True,
      NumberOfThreads = 1, Threads = [ThreadWorker 0], Controller = None :: unit option\<rparr>)" .
  from reachable.pushed [OF this, of 7]
  have r: "reachable executed ([], ?q)" by (simp add: Push_def)
  have e: "SetNumberOfThreads_body executed 0 ([Runs 0, Runs 0, Runs 0], [], ?q)
     = Inr ([Runs 0, Runs 0], [],
        \<lparr>InvokerQueue = [7], Empty = False, Destroying = False, Running = True,
         NumberOfThreads = 0, Threads = [], Controller = None\<rparr>)"
    by (simp add: SetNumberOfThreads_body_def Sync_def notify_all_def wake_def event_step_def
        worker_step_def OnHold_def Continue_def join_Finished resize_def joinable_def)
  from SetNumberOfThreads_frame [OF r e]
  have "mset ([] :: nat list) + mset ([] :: nat list) + mset [7 :: nat]
       = mset [] + mset [] + mset [7]"
    by (simp add: in_flight_def held_def)
  with r e show ?thesis by (intro conjI)
qed

end
